theory Spec2Isabelle
  imports Main "HOL-Library.Char_ord" "HOL-Library.List_Lexorder" "HOL-Library.AList"
    "HOL-Library.Multiset"
begin

section \<open>JavaScript values, strings and objects\<close>

text \<open>
  Strings are lists of code units; the model keeps the code units U+0000 to U+00FF
  (type \<open>char\<close>). The scanner and the writer only single out the four code units below,
  all of them in that range.
\<close>

definition DQUOTE :: char where "DQUOTE = CHR 0x22"
definition COMMA :: char where "COMMA = CHR '',''"
definition LF :: char where "LF = CHR 0x0A"
definition CR :: char where "CR = CHR 0x0D"

text \<open>
  The members every object literal inherits from \<open>Object.prototype\<close>. A property read
  \<open>obj[key]\<close> finds them when \<open>obj\<close> has no own property \<open>key\<close>; all of them are truthy
  (functions, and the prototype object itself for \<open>__proto__\<close>).
\<close>

definition object_prototype_names :: "string list" where
  "object_prototype_names =
     [''constructor'', ''__defineGetter__'', ''__defineSetter__'', ''hasOwnProperty'',
      ''__lookupGetter__'', ''__lookupSetter__'', ''isPrototypeOf'', ''propertyIsEnumerable'',
      ''toString'', ''valueOf'', ''__proto__'', ''toLocaleString'']"

datatype jsval =
    JUndefined
  | JNull
  | JBool bool
  | JNum int
  | JStr string
  | JProto string

text \<open>What a property read finds: nothing, an inherited member, or an own property.\<close>

datatype 'v slot = Missing | Proto string | Own 'v

text \<open>
  An object is the list of its own properties in insertion order, with distinct keys.
\<close>

type_synonym 'v jsobj = "(string \<times> 'v) list"

type_synonym jsrecord = "jsval jsobj"

definition obj_get :: "'v jsobj \<Rightarrow> string \<Rightarrow> 'v slot" where
  "obj_get obj k =
     (case map_of obj k of
        Some v \<Rightarrow> Own v
      | None \<Rightarrow> if k \<in> set object_prototype_names then Proto k else Missing)"

text \<open>\<open>!obj[key]\<close> for an object whose own values are objects or arrays (always truthy).\<close>

fun slot_truthy :: "'v slot \<Rightarrow> bool" where
  "slot_truthy Missing = False"
| "slot_truthy (Proto n) = True"
| "slot_truthy (Own v) = True"

text \<open>
  \<open>obj[key] = v\<close> on a key that is not \<open>__proto__\<close>: replaces the own property in place or
  appends a new one.
\<close>

definition obj_put :: "'v jsobj \<Rightarrow> string \<Rightarrow> 'v \<Rightarrow> 'v jsobj" where
  "obj_put obj k v = AList.update k v obj"

text \<open>
  \<open>Object.keys(obj)\<close> up to order: the engine lists keys that are array indices first, in
  numeric order, then the other keys in insertion order. The only use, in \<open>compare\<close>, sorts the
  keys, so the order of this list is not observed.
\<close>

definition Object_keys :: "'v jsobj \<Rightarrow> string list" where
  "Object_keys obj = map fst obj"

definition rec_get :: "jsrecord \<Rightarrow> string \<Rightarrow> jsval" where
  "rec_get r k =
     (case obj_get r k of Own v \<Rightarrow> v | Proto n \<Rightarrow> JProto n | Missing \<Rightarrow> JUndefined)"

text \<open>
  \<open>record[header] = s\<close> with a string \<open>s\<close>: the inherited \<open>__proto__\<close> setter ignores a value
  that is neither an object nor null, so no own property is created for that key.
\<close>

definition rec_set_str :: "jsrecord \<Rightarrow> string \<Rightarrow> string \<Rightarrow> jsrecord" where
  "rec_set_str r k s = (if k = ''__proto__'' then r else obj_put r k (JStr s))"

fun truthy :: "jsval \<Rightarrow> bool" where
  "truthy JUndefined = False"
| "truthy JNull = False"
| "truthy (JBool b) = b"
| "truthy (JNum n) = (n \<noteq> 0)"
| "truthy (JStr s) = (s \<noteq> [])"
| "truthy (JProto n) = True"

text \<open>\<open>a || b\<close>\<close>

definition js_or :: "jsval \<Rightarrow> jsval \<Rightarrow> jsval" where
  "js_or a b = (if truthy a then a else b)"

fun digit_char :: "nat \<Rightarrow> char" where
  "digit_char n = char_of (48 + n)"

fun nat_digits :: "nat \<Rightarrow> string" where
  "nat_digits n = (if n < 10 then [digit_char n] else nat_digits (n div 10) @ [digit_char (n mod 10)])"

text \<open>
  \<open>String(value)\<close>. Numbers are the integers, printed with all their digits: fractions,
  \<open>NaN\<close>, the infinities and the exponent form the engine uses from \<open>1e21\<close> on are not
  modelled. The text for an inherited member is the engine's.
\<close>

fun js_String :: "jsval \<Rightarrow> string" where
  "js_String JUndefined = ''undefined''"
| "js_String JNull = ''null''"
| "js_String (JBool b) = (if b then ''true'' else ''false'')"
| "js_String (JNum n) = (if n < 0 then CHR ''-'' # nat_digits (nat (- n)) else nat_digits (nat n))"
| "js_String (JStr s) = s"
| "js_String (JProto n) =
     (if n = ''__proto__'' then ''[object Object]''
      else ''function '' @ (if n = ''constructor'' then ''Object'' else n) @ ''() { [native code] }'')"

section \<open>The CSV writer\<close>

text \<open>\<open>stringValue.replace(/"/g, '""')\<close>\<close>

fun double_quotes :: "string \<Rightarrow> string" where
  "double_quotes [] = []"
| "double_quotes (c # cs) = (if c = DQUOTE then DQUOTE # DQUOTE # double_quotes cs else c # double_quotes cs)"

text \<open>\<open>/[",\n\r]/.test(stringValue)\<close>\<close>

definition needs_quoting :: "string \<Rightarrow> bool" where
  "needs_quoting s = (\<exists>c \<in> set s. c = DQUOTE \<or> c = COMMA \<or> c = LF \<or> c = CR)"

definition stringifyCsvValue :: "jsval \<Rightarrow> string" where
  "stringifyCsvValue v =
     (if v = JUndefined \<or> v = JNull then []
      else (let stringValue = js_String v in
            if needs_quoting stringValue then DQUOTE # double_quotes stringValue @ [DQUOTE]
            else stringValue))"

text \<open>
  The two halves of \<open>stringifyCsvValue\<close>, named for the proofs: the string a value stands
  for, and the quoting of a string.
\<close>

definition cell_text :: "jsval \<Rightarrow> string" where
  "cell_text v = (if v = JUndefined \<or> v = JNull then [] else js_String v)"

definition csv_cell :: "string \<Rightarrow> string" where
  "csv_cell s = (if needs_quoting s then DQUOTE # double_quotes s @ [DQUOTE] else s)"

text \<open>\<open>xs.join(sep)\<close>\<close>

fun join :: "string \<Rightarrow> string list \<Rightarrow> string" where
  "join sep [] = []"
| "join sep [x] = x"
| "join sep (x # y # ys) = x @ sep @ join sep (y # ys)"

text \<open>The text \<open>writeCsv\<close> hands to \<open>fs.writeFileSync\<close>.\<close>

definition writeCsv :: "string list \<Rightarrow> jsrecord list \<Rightarrow> string" where
  "writeCsv headers records =
     (let rows = join [COMMA] headers #
                 map (\<lambda>record. join [COMMA] (map (\<lambda>header. stringifyCsvValue (rec_get record header)) headers))
                     records
      in join [LF] rows @ [LF])"

text \<open>
  For the proofs: one line of the file as \<open>writeCsv\<close> builds it from cell strings, and the
  cell strings of a record.
\<close>

definition csv_line :: "string list \<Rightarrow> string" where
  "csv_line vs = join [COMMA] (map csv_cell vs) @ [LF]"

definition record_cells :: "string list \<Rightarrow> jsrecord \<Rightarrow> string list" where
  "record_cells headers record = map (\<lambda>header. cell_text (rec_get record header)) headers"

section \<open>The CSV reader\<close>

text \<open>
  The scanner loop of \<open>parseCsv\<close>: the remaining input, \<open>inQuotes\<close>, \<open>cell\<close>, \<open>row\<close>, \<open>rows\<close>.
  A read of \<open>content[i + 1]\<close> past the end gives \<open>undefined\<close>, which equals no character.
\<close>

fun parse_loop :: "string \<Rightarrow> bool \<Rightarrow> string \<Rightarrow> string list \<Rightarrow> string list list
                   \<Rightarrow> string list list \<times> string list \<times> string" where
  "parse_loop [] inQuotes cell row rows = (rows, row, cell)"
| "parse_loop [c] inQuotes cell row rows =
     (if inQuotes then
        (if c = DQUOTE then (rows, row, cell) else (rows, row, cell @ [c]))
      else if c = DQUOTE then (rows, row, cell)
      else if c = COMMA then (rows, row @ [cell], [])
      else if c = CR \<or> c = LF then (rows @ [row @ [cell]], [], [])
      else (rows, row, cell @ [c]))"
| "parse_loop (c # n # cs) inQuotes cell row rows =
     (if inQuotes then
        (if c = DQUOTE then
           (if n = DQUOTE then parse_loop cs True (cell @ [DQUOTE]) row rows
            else parse_loop (n # cs) False cell row rows)
         else parse_loop (n # cs) True (cell @ [c]) row rows)
      else if c = DQUOTE then parse_loop (n # cs) True cell row rows
      else if c = COMMA then parse_loop (n # cs) False [] (row @ [cell]) rows
      else if c = CR \<or> c = LF then
        (if c = CR \<and> n = LF then parse_loop cs False [] [] (rows @ [row @ [cell]])
         else parse_loop (n # cs) False [] [] (rows @ [row @ [cell]]))
      else parse_loop (n # cs) False (cell @ [c]) row rows)"

text \<open>The rows after the loop and the flush of a pending cell or row.\<close>

definition parse_rows :: "string \<Rightarrow> string list list" where
  "parse_rows content =
     (case parse_loop content False [] [] [] of
        (rows, row, cell) \<Rightarrow>
          if cell \<noteq> [] \<or> row \<noteq> [] then rows @ [row @ [cell]] else rows)"

text \<open>\<open>parseCsv\<close>: the final \<open>rows.pop()\<close> when the last row is one empty cell.\<close>

definition parseCsv :: "string \<Rightarrow> string list list" where
  "parseCsv content =
     (let rows = parse_rows content in
      if rows \<noteq> [] \<and> length (last rows) = 1 \<and> last rows ! 0 = [] then butlast rows else rows)"

text \<open>\<open>headers.forEach((header, index) => record[header] = cells[index] ?? "")\<close>\<close>

fun zip_record :: "string list \<Rightarrow> string list \<Rightarrow> jsrecord \<Rightarrow> jsrecord" where
  "zip_record [] cells record = record"
| "zip_record (header # headers) [] record =
     zip_record headers [] (rec_set_str record header [])"
| "zip_record (header # headers) (cell # cells) record =
     zip_record headers cells (rec_set_str record header cell)"

text \<open>\<open>readCsv\<close> on the text of the file.\<close>

definition readCsv :: "string \<Rightarrow> jsrecord list" where
  "readCsv raw =
     (case parseCsv raw of
        [] \<Rightarrow> []
      | headers # data \<Rightarrow> map (\<lambda>cells. zip_record headers cells []) data)"

section \<open>Identity keys\<close>

text \<open>
  \<open>String.prototype.trim\<close> removes white space and line terminators at both ends; in the
  code units kept here these are U+0009 to U+000D, U+0020 and U+00A0.
\<close>

definition is_js_space :: "char \<Rightarrow> bool" where
  "is_js_space c = (of_char c \<in> {9, 10, 11, 12, 13, 32, 160 :: nat})"

definition trim :: "string \<Rightarrow> string" where
  "trim s = rev (dropWhile is_js_space (rev (dropWhile is_js_space s)))"

text \<open>
  \<open>toLowerCase\<close> on the code units kept here: A to Z, and U+00C0 to U+00DE except U+00D7,
  move up by 32.
\<close>

definition lower_char :: "char \<Rightarrow> char" where
  "lower_char c =
     (let n = (of_char c :: nat) in
      if (65 \<le> n \<and> n \<le> 90) \<or> (192 \<le> n \<and> n \<le> 222 \<and> n \<noteq> 215) then char_of (n + 32) else c)"

definition toLowerCase :: "string \<Rightarrow> string" where
  "toLowerCase s = map lower_char s"

text \<open>
  A thrown \<open>TypeError\<close>. The string names the call that failed; it is not meant to be the
  wording of the engine's message.
\<close>

datatype js_error = TypeError string

text \<open>
  \<open>(record.name || "").trim()\<close>: a truthy value that is not a string has no \<open>trim\<close>.
\<close>

definition trimmed_name :: "jsrecord \<Rightarrow> js_error + string" where
  "trimmed_name record =
     (case js_or (rec_get record ''name'') (JStr []) of
        JStr s \<Rightarrow> Inr (trim s)
      | _ \<Rightarrow> Inl (TypeError ''record.name.trim is not a function''))"

section \<open>The keyed loaders\<close>

text \<open>
  One iteration of the loop of \<open>loadGithubReport\<close> and \<open>loadGitlabReport\<close> (the two loops are
  the same text) on \<open>repos\<close> and \<open>duplicates\<close>. Both start as \<open>{}\<close>, so the reads
  \<open>repos[key]\<close> and \<open>duplicates[key]\<close> see the inherited members too.
\<close>

definition load_step ::
  "jsrecord jsobj \<times> jsrecord list jsobj \<Rightarrow> jsrecord
     \<Rightarrow> js_error + (jsrecord jsobj \<times> jsrecord list jsobj)" where
  "load_step st record =
     (case st of (repos, duplicates) \<Rightarrow>
        (case trimmed_name record of
           Inl e \<Rightarrow> Inl e
         | Inr name \<Rightarrow>
             if name = [] then Inr (repos, duplicates)
             else
               (let key = toLowerCase name in
                if slot_truthy (obj_get repos key) then
                  (let duplicates1 =
                         (if \<not> slot_truthy (obj_get duplicates key) then obj_put duplicates key []
                          else duplicates)
                   in case obj_get duplicates1 key of
                        Own l \<Rightarrow> Inr (repos, obj_put duplicates1 key (l @ [record]))
                      | _ \<Rightarrow> Inl (TypeError ''duplicates[key].push is not a function''))
                else Inr (obj_put repos key record, duplicates))))"

fun load_loop ::
  "jsrecord list \<Rightarrow> jsrecord jsobj \<times> jsrecord list jsobj
     \<Rightarrow> js_error + (jsrecord jsobj \<times> jsrecord list jsobj)" where
  "load_loop [] st = Inr st"
| "load_loop (record # records) st =
     (case load_step st record of Inl e \<Rightarrow> Inl e | Inr st1 \<Rightarrow> load_loop records st1)"

text \<open>
  The loaders on the decoded table \<open>records = readCsv(pathname)\<close>. The result is the mapping
  and the lines written to \<open>console.error\<close>; a thrown error is \<open>Inl\<close>.
\<close>

definition duplicate_warning :: "string \<Rightarrow> jsrecord list jsobj \<Rightarrow> string list" where
  "duplicate_warning what duplicates =
     (let duplicateKeys = Object_keys duplicates in
      if length duplicateKeys > 0 then
        [''Warning: found '' @ nat_digits (length duplicateKeys) @ '' duplicate '' @ what
           @ '' names. Using first occurrence.'']
      else [])"

definition loadGithubReport :: "jsrecord list \<Rightarrow> js_error + (jsrecord jsobj \<times> string list)" where
  "loadGithubReport records =
     (case load_loop records ([], []) of
        Inl e \<Rightarrow> Inl e
      | Inr (repos, duplicates) \<Rightarrow> Inr (repos, duplicate_warning ''GitHub repo'' duplicates))"

definition loadGitlabReport :: "jsrecord list \<Rightarrow> js_error + (jsrecord jsobj \<times> string list)" where
  "loadGitlabReport records =
     (case load_loop records ([], []) of
        Inl e \<Rightarrow> Inl e
      | Inr (projects, duplicates) \<Rightarrow> Inr (projects, duplicate_warning ''GitLab project'' duplicates))"

section \<open>The archive cross-check\<close>

record counters =
  missing :: nat
  archived :: nat
  not_archived :: nat
  total_github :: nat

text \<open>
  A field read on what \<open>github[key]\<close> or \<open>gitlab[key]\<close> found. None of the fields the
  comparisons read is a property of an inherited member, so the read gives \<open>undefined\<close> there.
\<close>

fun slot_field :: "jsrecord slot \<Rightarrow> string \<Rightarrow> jsval" where
  "slot_field (Own r) f = rec_get r f"
| "slot_field (Proto n) f = JUndefined"
| "slot_field Missing f = JUndefined"

definition archivedValue :: "jsrecord slot \<Rightarrow> string" where
  "archivedValue glProject = toLowerCase (js_String (slot_field glProject ''archived''))"

definition compare_row :: "jsrecord slot \<Rightarrow> jsrecord slot \<Rightarrow> jsrecord" where
  "compare_row ghRepo glProject =
     [(''github_name'', slot_field ghRepo ''name''),
      (''github_name_with_owner'',
         js_or (js_or (slot_field ghRepo ''name_with_owner'') (slot_field ghRepo ''nameWithOwner'')) (JStr [])),
      (''github_archived'',
         js_or (js_or (slot_field ghRepo ''archived'') (slot_field ghRepo ''isArchived'')) (JStr [])),
      (''github_visibility'', js_or (slot_field ghRepo ''visibility'') (JStr [])),
      (''gitlab_path_with_namespace'', js_or (slot_field glProject ''path_with_namespace'') (JStr [])),
      (''gitlab_archived'', slot_field glProject ''archived''),
      (''status'', JStr ''gitlab_not_archived'')]"

fun compare_loop ::
  "jsrecord jsobj \<Rightarrow> jsrecord jsobj \<Rightarrow> string list \<Rightarrow> jsrecord list \<times> counters
     \<Rightarrow> jsrecord list \<times> counters" where
  "compare_loop github gitlab [] st = st"
| "compare_loop github gitlab (key # keys) (rows, c) =
     (let ghRepo = obj_get github key;
          glProject = obj_get gitlab key
      in if \<not> slot_truthy glProject then
           compare_loop github gitlab keys (rows, c\<lparr>missing := missing c + 1\<rparr>)
         else if archivedValue glProject = ''true'' \<or> archivedValue glProject = ''1'' then
           compare_loop github gitlab keys (rows, c\<lparr>archived := archived c + 1\<rparr>)
         else
           compare_loop github gitlab keys
             (rows @ [compare_row ghRepo glProject], c\<lparr>not_archived := not_archived c + 1\<rparr>))"

text \<open>
  \<open>Object.keys(github).sort()\<close> orders the keys by code units; the order in which the engine
  enumerates them is gone after the sort.
\<close>

definition compare :: "jsrecord jsobj \<Rightarrow> jsrecord jsobj \<Rightarrow> jsrecord list \<times> counters" where
  "compare github gitlab =
     (let keys = sort (Object_keys github) in
      case compare_loop github gitlab keys
             ([], \<lparr>missing = 0, archived = 0, not_archived = 0, total_github = 0\<rparr>) of
        (rows, c) \<Rightarrow> (rows, c\<lparr>total_github := length keys\<rparr>))"

text \<open>
  The part of \<open>main\<close> between reading the two reports and writing the result: both
  loaders, then \<open>compare\<close>. An error thrown by a loader ends the run.
\<close>

definition archive_report ::
  "jsrecord list \<Rightarrow> jsrecord list \<Rightarrow> js_error + (jsrecord list \<times> counters)" where
  "archive_report githubRecords gitlabRecords =
     (case loadGithubReport githubRecords of
        Inl e \<Rightarrow> Inl e
      | Inr (github, warnings1) \<Rightarrow>
          (case loadGitlabReport gitlabRecords of
             Inl e \<Rightarrow> Inl e
           | Inr (gitlab, warnings2) \<Rightarrow> Inr (compare github gitlab)))"

section \<open>The staleness comparison\<close>

record change_counters =
  compared :: nat
  missingInGitLab :: nat
  gitlabNewer :: nat
  githubNewerOrEqual :: nat
  unknown :: nat

definition getGithubTimestamp :: "jsrecord \<Rightarrow> jsval" where
  "getGithubTimestamp record =
     js_or (js_or (rec_get record ''pushed_at'') (rec_get record ''pushedAt'')) (JStr [])"

text \<open>
  \<open>toDate\<close>. The host's date parser is the parameter \<open>date_time\<close>: \<open>date_time v\<close> is
  \<open>new Date(v).getTime()\<close>, with \<open>None\<close> for \<open>NaN\<close>.
\<close>

definition toDate :: "(jsval \<Rightarrow> int option) \<Rightarrow> jsval \<Rightarrow> int option" where
  "toDate date_time v = (if \<not> truthy v then None else date_time v)"

definition pickGitlabTimestamp :: "jsrecord slot \<Rightarrow> jsval" where
  "pickGitlabTimestamp project =
     js_or (js_or (slot_field project ''last_repository_updated_at'')
                  (slot_field project ''last_activity_at'')) (JStr [])"

text \<open>The first loop of \<open>compareLastChanges\<close>, which fills \<open>gitlabByName\<close>.\<close>

definition index_step :: "jsrecord jsobj \<Rightarrow> jsrecord \<Rightarrow> js_error + jsrecord jsobj" where
  "index_step gitlabByName record =
     (case trimmed_name record of
        Inl e \<Rightarrow> Inl e
      | Inr trimmed \<Rightarrow>
          (let name = toLowerCase trimmed in
           if name = [] then Inr gitlabByName
           else if \<not> slot_truthy (obj_get gitlabByName name) then Inr (obj_put gitlabByName name record)
           else Inr gitlabByName))"

fun index_loop :: "jsrecord list \<Rightarrow> jsrecord jsobj \<Rightarrow> js_error + jsrecord jsobj" where
  "index_loop [] gitlabByName = Inr gitlabByName"
| "index_loop (record # records) gitlabByName =
     (case index_step gitlabByName record of
        Inl e \<Rightarrow> Inl e
      | Inr gitlabByName1 \<Rightarrow> index_loop records gitlabByName1)"

definition change_row :: "string \<Rightarrow> jsval \<Rightarrow> jsval \<Rightarrow> string \<Rightarrow> jsrecord" where
  "change_row name githubPushedAt gitlabUpdatedAt status =
     [(''name'', JStr name),
      (''githubPushedAt'', githubPushedAt),
      (''gitlabUpdatedAt'', gitlabUpdatedAt),
      (''status'', JStr status)]"

text \<open>
  The body of the second loop for a repo whose project was found, after
  \<open>counters.compared += 1\<close>: the row pushed and the counters.
\<close>

definition compare_pair ::
  "(jsval \<Rightarrow> int option) \<Rightarrow> string \<Rightarrow> jsrecord \<Rightarrow> jsrecord slot \<Rightarrow> change_counters
     \<Rightarrow> jsrecord \<times> change_counters" where
  "compare_pair date_time name repo project c =
     (let githubTimestamp = getGithubTimestamp repo;
          githubDate = toDate date_time githubTimestamp;
          gitlabTimestamp = pickGitlabTimestamp project;
          gitlabDate = toDate date_time gitlabTimestamp
      in case (githubDate, gitlabDate) of
           (None, None) \<Rightarrow>
             (change_row name (js_or githubTimestamp (JStr [])) (js_or gitlabTimestamp (JStr []))
                ''unknown_timestamps'',
              c\<lparr>unknown := unknown c + 1\<rparr>)
         | (None, Some gl) \<Rightarrow>
             (change_row name (js_or githubTimestamp (JStr [])) (js_or gitlabTimestamp (JStr []))
                ''gitlab_has_timestamp_only'',
              c\<lparr>gitlabNewer := gitlabNewer c + 1\<rparr>)
         | (Some gh, None) \<Rightarrow>
             (change_row name (js_or githubTimestamp (JStr [])) (js_or gitlabTimestamp (JStr []))
                ''github_has_timestamp_only'',
              c\<lparr>githubNewerOrEqual := githubNewerOrEqual c + 1\<rparr>)
         | (Some gh, Some gl) \<Rightarrow>
             if gl > gh then
               (change_row name githubTimestamp gitlabTimestamp ''gitlab_newer'',
                c\<lparr>gitlabNewer := gitlabNewer c + 1\<rparr>)
             else
               (change_row name githubTimestamp gitlabTimestamp ''github_newer_or_equal'',
                c\<lparr>githubNewerOrEqual := githubNewerOrEqual c + 1\<rparr>))"

fun change_loop ::
  "(jsval \<Rightarrow> int option) \<Rightarrow> jsrecord jsobj \<Rightarrow> jsrecord list \<Rightarrow> jsrecord list \<times> change_counters
     \<Rightarrow> js_error + (jsrecord list \<times> change_counters)" where
  "change_loop date_time gitlabByName [] st = Inr st"
| "change_loop date_time gitlabByName (repo # repos) (results, c) =
     (case trimmed_name repo of
        Inl e \<Rightarrow> Inl e
      | Inr name \<Rightarrow>
          if name = [] then change_loop date_time gitlabByName repos (results, c)
          else
            (let project = obj_get gitlabByName (toLowerCase name) in
             if \<not> slot_truthy project then
               change_loop date_time gitlabByName repos
                 (results, c\<lparr>missingInGitLab := missingInGitLab c + 1\<rparr>)
             else
               (case compare_pair date_time name repo project (c\<lparr>compared := compared c + 1\<rparr>) of
                  (row, c1) \<Rightarrow> change_loop date_time gitlabByName repos (results @ [row], c1))))"

definition compareLastChanges ::
  "(jsval \<Rightarrow> int option) \<Rightarrow> jsrecord list \<Rightarrow> jsrecord list
     \<Rightarrow> js_error + (jsrecord list \<times> change_counters)" where
  "compareLastChanges date_time githubRecords gitlabRecords =
     (case index_loop gitlabRecords [] of
        Inl e \<Rightarrow> Inl e
      | Inr gitlabByName \<Rightarrow>
          change_loop date_time gitlabByName githubRecords
            ([], \<lparr>compared = 0, missingInGitLab = 0, gitlabNewer = 0, githubNewerOrEqual = 0,
                  unknown = 0\<rparr>))"

section \<open>The enrichment pool\<close>

text \<open>
  \<open>fetchProjectDetail\<close> is the parameter \<open>fetch\<close>: from \<open>project.id\<close> to the parsed detail,
  or to the message of what was thrown inside the \<open>try\<close> block.
\<close>

type_synonym fetcher = "jsval \<Rightarrow> string + jsrecord"

datatype event = Warning jsval string | Progress nat nat

text \<open>
  The variables the workers share: \<open>index\<close>, \<open>fetched\<close>, the array \<open>projects\<close> (its elements
  are distinct objects) and what was written to the console.
\<close>

record pool =
  index :: nat
  fetched :: nat
  projects :: "jsrecord list"
  console :: "event list"

text \<open>A worker is suspended at its \<open>await\<close>, for the item it claimed, or has returned.\<close>

datatype worker = Awaiting nat | Returned

text \<open>
  A worker from the top of its loop to its next \<open>await\<close>: it claims indices, passing over the
  items whose field is already truthy, with no suspension in between.
\<close>

function claim :: "pool \<Rightarrow> pool \<times> worker" where
  "claim p =
     (let currentIndex = index p;
          p1 = p\<lparr>index := index p + 1\<rparr>
      in if currentIndex \<ge> length (projects p) then (p1, Returned)
         else if truthy (rec_get (projects p ! currentIndex) ''last_repository_updated_at'') then claim p1
         else (p1, Awaiting currentIndex))"
  by pat_completeness auto
termination
  by (relation "measure (\<lambda>p. length (projects p) - index p)") auto

text \<open>What the worker writes into its project when the fetch succeeded.\<close>

definition apply_detail :: "jsrecord \<Rightarrow> jsrecord \<Rightarrow> jsrecord" where
  "apply_detail project detail =
     (let project1 = obj_put project ''last_repository_updated_at''
                       (rec_get detail ''last_repository_updated_at'')
      in if \<not> truthy (rec_get project1 ''last_activity_at'') then
           obj_put project1 ''last_activity_at'' (rec_get detail ''last_activity_at'')
         else project1)"

text \<open>
  A worker from the settling of its fetch for item \<open>i\<close> to the end of that loop iteration.
\<close>

definition settle :: "fetcher \<Rightarrow> nat \<Rightarrow> pool \<Rightarrow> pool" where
  "settle fetch i p =
     (let project = projects p ! i;
          p1 = (case fetch (rec_get project ''id'') of
                  Inr detail \<Rightarrow> p\<lparr>projects := (projects p)[i := apply_detail project detail]\<rparr>
                | Inl message \<Rightarrow>
                    p\<lparr>console := console p @ [Warning (rec_get project ''id'') message]\<rparr>);
          p2 = p1\<lparr>fetched := fetched p1 + 1\<rparr>
      in if fetched p2 mod 25 = 0 \<or> fetched p2 = length (projects p2) then
           p2\<lparr>console := console p2 @ [Progress (fetched p2) (length (projects p2))]\<rparr>
         else p2)"

text \<open>The \<open>for\<close> loop that starts the workers: each runs at once up to its first \<open>await\<close>.\<close>

fun start_workers :: "nat \<Rightarrow> pool \<Rightarrow> pool \<times> worker list" where
  "start_workers 0 p = (p, [])"
| "start_workers (Suc n) p =
     (case claim p of
        (p1, w) \<Rightarrow> (case start_workers n p1 of (p2, ws) \<Rightarrow> (p2, w # ws)))"

text \<open>The workers that are suspended, by their position in the pool.\<close>

definition waiting :: "worker list \<Rightarrow> nat list" where
  "waiting ws = filter (\<lambda>k. ws ! k \<noteq> Returned) [0..<length ws]"

text \<open>Facts about one worker step, for the termination of the pool.\<close>

lemma settle_index [simp]: "index (settle fetch i p) = index p"
  by (simp add: settle_def Let_def split: sum.splits)

lemma settle_length [simp]: "length (projects (settle fetch i p)) = length (projects p)"
  by (simp add: settle_def Let_def split: sum.splits)

lemma claim_props:
  "claim p = (p1, w) \<Longrightarrow>
     projects p1 = projects p \<and> console p1 = console p \<and> fetched p1 = fetched p \<and> index p < index p1 \<and>
     (case w of Awaiting j \<Rightarrow> index p \<le> j \<and> index p1 = Suc j \<and> j < length (projects p)
               | Returned \<Rightarrow> length (projects p) < index p1)"
proof (induction p arbitrary: p1 w rule: claim.induct)
  case (1 p)
  show ?case
  proof (cases "index p \<ge> length (projects p)")
    case True
    with "1.prems" show ?thesis by (subst (asm) claim.simps) (auto simp: Let_def)
  next
    case False
    note nf = this
    show ?thesis
    proof (cases "truthy (rec_get (projects p ! index p) ''last_repository_updated_at'')")
      case True
      with nf "1.prems" have c: "claim (p\<lparr>index := index p + 1\<rparr>) = (p1, w)"
        by (subst (asm) claim.simps) (simp add: Let_def)
      from "1.IH"[OF refl refl _ True c] nf
      show ?thesis by (auto split: worker.splits)
    next
      case False
      with nf "1.prems" show ?thesis by (subst (asm) claim.simps) (auto simp: Let_def)
    qed
  qed
qed

lemma length_waiting: "length (waiting ws) = length (filter (\<lambda>w. w \<noteq> Returned) ws)"
proof -
  have "filter (\<lambda>w. w \<noteq> Returned) (map (nth ws) [0..<length ws]) = map (nth ws) (waiting ws)"
    by (simp add: waiting_def filter_map comp_def)
  then have "length (filter (\<lambda>w. w \<noteq> Returned) (map (nth ws) [0..<length ws])) = length (waiting ws)"
    by simp
  then show ?thesis by (simp add: map_nth)
qed

lemma waiting_mem: "k \<in> set (waiting ws) \<longleftrightarrow> k < length ws \<and> ws ! k \<noteq> Returned"
  by (auto simp: waiting_def)

lemma length_waiting_update:
  assumes "k < length ws" "ws ! k \<noteq> Returned"
  shows "length (waiting (ws[k := w])) = (if w = Returned then length (waiting ws) - 1 else length (waiting ws))"
    and "\<exists>n. length (waiting ws) = Suc n"
proof -
  have a: "ws = take k ws @ ws ! k # drop (Suc k) ws" using assms(1) by (rule id_take_nth_drop)
  have b: "ws[k := w] = take k ws @ w # drop (Suc k) ws" using assms(1) by (rule upd_conv_take_nth_drop)
  have "length (filter (\<lambda>w. w \<noteq> Returned) ws)
      = length (filter (\<lambda>w. w \<noteq> Returned) (take k ws)) + 1 + length (filter (\<lambda>w. w \<noteq> Returned) (drop (Suc k) ws))"
    by (subst a) (simp add: assms(2))
  moreover have "length (filter (\<lambda>w. w \<noteq> Returned) (ws[k := w]))
      = length (filter (\<lambda>w. w \<noteq> Returned) (take k ws)) + (if w = Returned then 0 else 1)
        + length (filter (\<lambda>w. w \<noteq> Returned) (drop (Suc k) ws))"
    by (subst b) simp
  ultimately show "length (waiting (ws[k := w])) = (if w = Returned then length (waiting ws) - 1 else length (waiting ws))"
    and "\<exists>n. length (waiting ws) = Suc n"
    by (simp_all add: length_waiting)
qed

lemma pool_step_measure:
  assumes "waiting ws \<noteq> []" "k = waiting ws ! (m mod length (waiting ws))"
    and "ws ! k = Awaiting i" "(p1, w) = claim (settle fetch i p)"
  shows "length (projects p1) - index p1 + length (waiting (ws[k := w]))
           < length (projects p) - index p + length (waiting ws)"
proof -
  from assms(1) have "k \<in> set (waiting ws)" unfolding assms(2) by simp
  then have k: "k < length ws" "ws ! k \<noteq> Returned" by (simp_all add: waiting_mem)
  from assms(4) have cl: "claim (settle fetch i p) = (p1, w)" by simp
  note cp = claim_props[OF cl]
  note lw = length_waiting_update(1)[OF k, of w] length_waiting_update(2)[OF k]
  show ?thesis
  proof (cases w)
    case (Awaiting j)
    with cp lw show ?thesis by auto
  next
    case Returned
    with cp lw show ?thesis by auto
  qed
qed

text \<open>
  The pool from the moment all workers are started until none is suspended. The fetches in
  flight settle in an order the program does not control: \<open>sched t\<close> chooses which
  suspended worker resumes at step \<open>t\<close>. Every fetch settles, with a detail or an error.
\<close>

function pool_run :: "fetcher \<Rightarrow> (nat \<Rightarrow> nat) \<Rightarrow> nat \<Rightarrow> pool \<Rightarrow> worker list \<Rightarrow> pool" where
  "pool_run fetch sched t p ws =
     (if waiting ws = [] then p
      else (let k = waiting ws ! (sched t mod length (waiting ws)) in
            case ws ! k of
              Returned \<Rightarrow> p
            | Awaiting i \<Rightarrow>
                (case claim (settle fetch i p) of
                   (p1, w) \<Rightarrow> pool_run fetch sched (t + 1) p1 (ws[k := w]))))"
  by pat_completeness auto
termination
  apply (relation "measure (\<lambda>(fetch, sched, t, p, ws). (length (projects p) - index p) + length (waiting ws))")
  subgoal by simp
  subgoal by (simp add: pool_step_measure)
  done

text \<open>
  \<open>fetchProjectDetailsConcurrently\<close>; \<open>parsed\<close> is
  \<open>parseInt(process.env.GITLAB_DETAIL_CONCURRENCY || "8", 10)\<close>, with \<open>None\<close> for \<open>NaN\<close>.
  The result is the pool when \<open>Promise.all(workers)\<close> resolves.
\<close>

definition fetchProjectDetailsConcurrently ::
  "int option \<Rightarrow> fetcher \<Rightarrow> (nat \<Rightarrow> nat) \<Rightarrow> jsrecord list \<Rightarrow> pool" where
  "fetchProjectDetailsConcurrently parsed fetch sched projects0 =
     (let concurrency = (case parsed of None \<Rightarrow> 8 | Some n \<Rightarrow> if n < 1 then 8 else min n 16);
          workerCount = min (nat concurrency) (length projects0)
      in case start_workers workerCount \<lparr>index = 0, fetched = 0, projects = projects0, console = []\<rparr> of
           (p, ws) \<Rightarrow> pool_run fetch sched 0 p ws)"

text \<open>The two recursive equations are applied by hand in the proofs.\<close>

declare claim.simps [simp del] pool_run.simps [simp del]

section \<open>Notions used in the statements\<close>

text \<open>The branch of \<open>compare\<close> a key takes: found on the right, and found archived there.\<close>

definition matched :: "jsrecord jsobj \<Rightarrow> string \<Rightarrow> bool" where
  "matched gitlab key = slot_truthy (obj_get gitlab key)"

definition resolved :: "jsrecord jsobj \<Rightarrow> string \<Rightarrow> bool" where
  "resolved gitlab key =
     (archivedValue (obj_get gitlab key) = ''true'' \<or> archivedValue (obj_get gitlab key) = ''1'')"

text \<open>
  The trimmed name of a record and its identity key, the trimmed name in lower case; both
  are empty when \<open>trim\<close> cannot be called on the name.
\<close>

definition repo_name :: "jsrecord \<Rightarrow> string" where
  "repo_name record = (case trimmed_name record of Inr name \<Rightarrow> name | Inl e \<Rightarrow> [])"

definition identity_key :: "jsrecord \<Rightarrow> string" where
  "identity_key record = (case trimmed_name record of Inr name \<Rightarrow> toLowerCase name | Inl e \<Rightarrow> [])"

text \<open>
  A record the loops can key: its name is a string or falsy, and (for \<open>loadable\<close>) its key
  is not the name of a member inherited from \<open>Object.prototype\<close>.
\<close>

definition name_ok :: "jsrecord \<Rightarrow> bool" where
  "name_ok record = (case trimmed_name record of Inr name \<Rightarrow> True | Inl e \<Rightarrow> False)"

definition loadable :: "jsrecord \<Rightarrow> bool" where
  "loadable record =
     ((case trimmed_name record of Inr name \<Rightarrow> True | Inl e \<Rightarrow> False)
      \<and> identity_key record \<notin> set object_prototype_names)"

text \<open>
  The first-seen rule in the words of the specification: a record with a non-empty key that
  is not yet in the mapping is added under that key, any other record leaves the mapping
  as it is.
\<close>

definition first_seen_put :: "jsrecord jsobj \<Rightarrow> jsrecord \<Rightarrow> jsrecord jsobj" where
  "first_seen_put repos record =
     (if identity_key record = [] \<or> identity_key record \<in> set (Object_keys repos) then repos
      else repos @ [(identity_key record, record)])"

text \<open>No two different records of the list share a non-empty key.\<close>

definition unique_keys :: "jsrecord list \<Rightarrow> bool" where
  "unique_keys records =
     (\<forall>x \<in> set records. \<forall>y \<in> set records.
        identity_key x \<noteq> [] \<longrightarrow> identity_key x = identity_key y \<longrightarrow> x = y)"

text \<open>
  The five outcomes of the staleness comparison in the words of the specification, from the
  two parsed timestamps (GitHub first), and the tags that name them.
\<close>

fun classify :: "int option \<Rightarrow> int option \<Rightarrow> string" where
  "classify None None = ''unknown_timestamps''"
| "classify None (Some gl) = ''gitlab_has_timestamp_only''"
| "classify (Some gh) None = ''github_has_timestamp_only''"
| "classify (Some gh) (Some gl) = (if gl > gh then ''gitlab_newer'' else ''github_newer_or_equal'')"

definition outcome_tags :: "string list" where
  "outcome_tags = [''unknown_timestamps'', ''gitlab_has_timestamp_only'', ''github_has_timestamp_only'',
                   ''gitlab_newer'', ''github_newer_or_equal'']"

text \<open>
  The joined pairs in the words of the specification: a GitHub record with a non-empty
  normalized name, together with the first GitLab record of the same normalized name; and
  the outcome of a pair from the timestamps of its two records.
\<close>

definition gitlab_match :: "jsrecord list \<Rightarrow> jsrecord \<Rightarrow> jsrecord option" where
  "gitlab_match gitlabRecords repo =
     (if identity_key repo = [] then None
      else find (\<lambda>project. identity_key project = identity_key repo) gitlabRecords)"

definition joined_pairs :: "jsrecord list \<Rightarrow> jsrecord list \<Rightarrow> (jsrecord \<times> jsrecord) list" where
  "joined_pairs githubRecords gitlabRecords =
     concat (map (\<lambda>repo. case gitlab_match gitlabRecords repo of
                            None \<Rightarrow> []
                          | Some project \<Rightarrow> [(repo, project)]) githubRecords)"


text \<open>
  A result row whose status is the outcome of its own two timestamps; the number of result
  rows with a given status; a GitHub record for which the second loop finds a project; and
  counters that agree with the result rows.
\<close>

definition good_row :: "(jsval \<Rightarrow> int option) \<Rightarrow> jsrecord \<Rightarrow> bool" where
  "good_row date_time row =
     (rec_get row ''status''
        = JStr (classify (toDate date_time (rec_get row ''githubPushedAt''))
                         (toDate date_time (rec_get row ''gitlabUpdatedAt''))))"

definition count_status :: "string \<Rightarrow> jsrecord list \<Rightarrow> nat" where
  "count_status s results = length (filter (\<lambda>row. rec_get row ''status'' = JStr s) results)"

definition joined :: "jsrecord jsobj \<Rightarrow> jsrecord \<Rightarrow> bool" where
  "joined gitlabByName repo =
     (case trimmed_name repo of
        Inr name \<Rightarrow> name \<noteq> [] \<and> slot_truthy (obj_get gitlabByName (toLowerCase name))
      | Inl e \<Rightarrow> False)"

definition tallied :: "jsrecord list \<times> change_counters \<Rightarrow> bool" where
  "tallied st =
     (case st of (results, c) \<Rightarrow>
        compared c = length results
      \<and> unknown c = count_status ''unknown_timestamps'' results
      \<and> gitlabNewer c = count_status ''gitlab_has_timestamp_only'' results + count_status ''gitlab_newer'' results
      \<and> githubNewerOrEqual c
          = count_status ''github_has_timestamp_only'' results + count_status ''github_newer_or_equal'' results)"

text \<open>
  Inputs of the examples. \<open>date_time_sample\<close> is the host's date parser on the strings the
  examples use: two ISO timestamps with their epoch milliseconds, and no date otherwise.
\<close>

definition date_time_sample :: "jsval \<Rightarrow> int option" where
  "date_time_sample v =
     (case v of
        JStr s \<Rightarrow>
          if s = ''2024-01-01T00:00:00Z'' then Some 1704067200000
          else if s = ''2023-01-01T00:00:00Z'' then Some 1672531200000
          else None
      | _ \<Rightarrow> None)"



definition scenario_left :: "jsrecord list" where
  "scenario_left = [[(''name'', JStr ''Foo'')], [(''name'', JStr ''bar'')]]"

definition scenario_right :: "jsrecord list" where
  "scenario_right =
     [[(''name'', JStr ''foo''), (''archived'', JStr ''true'')],
      [(''name'', JStr ''BAR''), (''archived'', JStr ''false'')]]"

text \<open>
  For the enrichment pool: an item the worker fetches for, what a completed fetch makes of an
  item, and the warnings an item causes.
\<close>

definition unfilled :: "jsrecord \<Rightarrow> bool" where
  "unfilled project = (\<not> truthy (rec_get project ''last_repository_updated_at''))"

definition enrich :: "fetcher \<Rightarrow> jsrecord \<Rightarrow> jsrecord" where
  "enrich fetch project =
     (if unfilled project then
        (case fetch (rec_get project ''id'') of
           Inr detail \<Rightarrow> apply_detail project detail
         | Inl message \<Rightarrow> project)
      else project)"

definition item_warnings :: "fetcher \<Rightarrow> jsrecord \<Rightarrow> event list" where
  "item_warnings fetch project =
     (if unfilled project then
        (case fetch (rec_get project ''id'') of
           Inr detail \<Rightarrow> []
         | Inl message \<Rightarrow> [Warning (rec_get project ''id'') message])
      else [])"

fun is_warning :: "event \<Rightarrow> bool" where
  "is_warning (Warning v message) = True"
| "is_warning (Progress k n) = False"

text \<open>
  The invariant of the pool with respect to the initial array \<open>P0\<close>. \<open>A\<close> holds the indices
  with a fetch in flight. An index below the cursor and not in \<open>A\<close> is settled: its
  project is enriched, its warnings are on the console and, if it needed one, its fetch is
  counted; every other project is as it was.
\<close>

definition settled :: "(nat \<Rightarrow> bool) \<Rightarrow> (nat \<Rightarrow> 'a list) \<Rightarrow> nat \<Rightarrow> 'a list" where
  "settled D g n = concat (map (\<lambda>j. if D j then g j else []) [0..<n])"

definition pool_inv :: "jsrecord list \<Rightarrow> fetcher \<Rightarrow> pool \<Rightarrow> nat set \<Rightarrow> bool" where
  "pool_inv P0 fetch p A =
     (length (projects p) = length P0
    \<and> (\<forall>j \<in> A. j < index p \<and> j < length P0 \<and> unfilled (P0 ! j))
    \<and> (\<forall>j < length P0.
          projects p ! j = (if j < index p \<and> j \<notin> A then enrich fetch (P0 ! j) else P0 ! j))
    \<and> mset (filter is_warning (console p))
        = mset (settled (\<lambda>j. j < index p \<and> j \<notin> A) (\<lambda>j. item_warnings fetch (P0 ! j)) (length P0))
    \<and> fetched p
        = length (settled (\<lambda>j. j < index p \<and> j \<notin> A) (\<lambda>j. if unfilled (P0 ! j) then [P0 ! j] else [])
                   (length P0)))"

text \<open>The indices in flight, worker by worker, and the invariant for a pool of workers.\<close>

fun worker_item :: "worker \<Rightarrow> nat list" where
  "worker_item (Awaiting i) = [i]"
| "worker_item Returned = []"

definition awaiting :: "worker list \<Rightarrow> nat list" where
  "awaiting ws = concat (map worker_item ws)"

definition pool_ok :: "jsrecord list \<Rightarrow> fetcher \<Rightarrow> pool \<Rightarrow> worker list \<Rightarrow> bool" where
  "pool_ok P0 fetch p ws =
     (pool_inv P0 fetch p (set (awaiting ws)) \<and> distinct (awaiting ws)
      \<and> (Returned \<in> set ws \<longrightarrow> length P0 \<le> index p))"

text \<open>
  Scenario C: ten projects with the ids 1 to 10 and no repository timestamp, and a fetch that
  throws for id 4.
\<close>

definition pool_sample :: "jsrecord list" where
  "pool_sample = map (\<lambda>n. [(''id'', JNum n), (''name'', JStr ''project'')]) [1, 2, 3, 4, 5, 6, 7, 8, 9, 10]"

definition fetch_sample :: fetcher where
  "fetch_sample v =
     (if v = JNum 4 then Inl ''GitLab request failed with status 500''
      else Inr [(''id'', v), (''last_activity_at'', JStr ''2023-01-01T00:00:00Z''),
                (''last_repository_updated_at'', JStr ''2024-01-01T00:00:00Z'')])"

section \<open>Properties of the CSV codec\<close>

lemma special_neq [simp]:
  "DQUOTE \<noteq> COMMA" "DQUOTE \<noteq> LF" "DQUOTE \<noteq> CR" "COMMA \<noteq> DQUOTE" "COMMA \<noteq> LF" "COMMA \<noteq> CR"
  "LF \<noteq> DQUOTE" "LF \<noteq> COMMA" "LF \<noteq> CR" "CR \<noteq> DQUOTE" "CR \<noteq> COMMA" "CR \<noteq> LF"
  by (simp_all add: DQUOTE_def COMMA_def LF_def CR_def)

lemma parse_loop_Cons:
  "parse_loop (c # cs) inQuotes cell row rows =
     (if inQuotes then
        (if c = DQUOTE then
           (if cs \<noteq> [] \<and> hd cs = DQUOTE then parse_loop (tl cs) True (cell @ [DQUOTE]) row rows
            else parse_loop cs False cell row rows)
         else parse_loop cs True (cell @ [c]) row rows)
      else if c = DQUOTE then parse_loop cs True cell row rows
      else if c = COMMA then parse_loop cs False [] (row @ [cell]) rows
      else if c = CR \<or> c = LF then
        (if c = CR \<and> cs \<noteq> [] \<and> hd cs = LF then parse_loop (tl cs) False [] [] (rows @ [row @ [cell]])
         else parse_loop cs False [] [] (rows @ [row @ [cell]]))
      else parse_loop cs False (cell @ [c]) row rows)"
  by (cases cs) auto

lemma plain_cell:
  "\<forall>c \<in> set v. c \<noteq> DQUOTE \<and> c \<noteq> COMMA \<and> c \<noteq> LF \<and> c \<noteq> CR \<Longrightarrow>
   parse_loop (v @ rest) False cell row rows = parse_loop rest False (cell @ v) row rows"
proof (induction v arbitrary: cell)
  case Nil
  then show ?case by simp
next
  case (Cons c v)
  then show ?case by (simp add: parse_loop_Cons)
qed

lemma quoted_body:
  "rest = [] \<or> hd rest \<noteq> DQUOTE \<Longrightarrow>
   parse_loop (double_quotes v @ DQUOTE # rest) True cell row rows = parse_loop rest False (cell @ v) row rows"
proof (induction v arbitrary: cell)
  case Nil
  then show ?case by (auto simp add: parse_loop_Cons)
next
  case (Cons c v)
  then show ?case by (simp add: parse_loop_Cons)
qed

lemma parse_csv_cell:
  assumes "rest = [] \<or> hd rest \<noteq> DQUOTE"
  shows "parse_loop (csv_cell v @ rest) False [] row rows = parse_loop rest False v row rows"
proof (cases "needs_quoting v")
  case True
  then show ?thesis using quoted_body[OF assms, of v "[]" row rows]
    by (simp add: csv_cell_def parse_loop_Cons)
next
  case False
  then have "\<forall>c \<in> set v. c \<noteq> DQUOTE \<and> c \<noteq> COMMA \<and> c \<noteq> LF \<and> c \<noteq> CR"
    by (auto simp: needs_quoting_def)
  from plain_cell[OF this, of rest "[]" row rows] False show ?thesis
    by (simp add: csv_cell_def)
qed

lemma parse_csv_line:
  "vs \<noteq> [] \<Longrightarrow>
   parse_loop (join [COMMA] (map csv_cell vs) @ LF # rest) False [] row rows
     = parse_loop rest False [] [] (rows @ [row @ vs])"
proof (induction vs arbitrary: row rule: induct_list012)
  case 1
  then show ?case by simp
next
  case (2 x)
  show ?case using parse_csv_cell[of "LF # rest" x row rows]
    by (simp add: parse_loop_Cons)
next
  case (3 x y zs)
  have "parse_loop (join [COMMA] (map csv_cell (x # y # zs)) @ LF # rest) False [] row rows
      = parse_loop (csv_cell x @ (COMMA # join [COMMA] (map csv_cell (y # zs)) @ LF # rest)) False [] row rows"
    by simp
  also have "\<dots> = parse_loop (COMMA # join [COMMA] (map csv_cell (y # zs)) @ LF # rest) False x row rows"
    by (rule parse_csv_cell) simp
  also have "\<dots> = parse_loop (join [COMMA] (map csv_cell (y # zs)) @ LF # rest) False [] (row @ [x]) rows"
    by (simp add: parse_loop_Cons)
  also have "\<dots> = parse_loop rest False [] [] (rows @ [(row @ [x]) @ (y # zs)])"
    using 3(2)[of "row @ [x]"] by simp
  finally show ?case by simp
qed

lemma stringify_csv_cell: "stringifyCsvValue v = csv_cell (cell_text v)"
  by (simp add: stringifyCsvValue_def csv_cell_def cell_text_def needs_quoting_def Let_def)

lemma csv_cell_plain: "\<not> needs_quoting s \<Longrightarrow> csv_cell s = s"
  by (simp add: csv_cell_def)

lemma join_terminated:
  "xs \<noteq> [] \<Longrightarrow> join sep xs @ sep = concat (map (\<lambda>x. x @ sep) xs)"
  by (induction xs rule: induct_list012) simp_all

lemma parse_csv_lines:
  "\<forall>vs \<in> set ls. vs \<noteq> [] \<Longrightarrow>
   parse_loop (concat (map csv_line ls) @ rest) False [] [] rows
     = parse_loop rest False [] [] (rows @ ls)"
proof (induction ls arbitrary: rows)
  case Nil
  then show ?case by simp
next
  case (Cons vs ls)
  then have ne: "vs \<noteq> []" and rest: "\<forall>vs \<in> set ls. vs \<noteq> []" by simp_all
  have "parse_loop (concat (map csv_line (vs # ls)) @ rest) False [] [] rows
      = parse_loop (join [COMMA] (map csv_cell vs) @ LF # (concat (map csv_line ls) @ rest)) False [] [] rows"
    by (simp add: csv_line_def)
  also have "\<dots> = parse_loop (concat (map csv_line ls) @ rest) False [] [] (rows @ [[] @ vs])"
    using ne by (rule parse_csv_line)
  also have "\<dots> = parse_loop rest False [] [] ((rows @ [vs]) @ ls)"
    using Cons.IH[OF rest, of "rows @ [vs]"] by simp
  finally show ?case by simp
qed

lemma writeCsv_lines:
  assumes "\<forall>h \<in> set headers. \<not> needs_quoting h"
  shows "writeCsv headers records = concat (map csv_line (headers # map (record_cells headers) records))"
proof -
  have h: "map csv_cell headers = headers"
    using assms by (simp add: csv_cell_plain map_idI)
  have "writeCsv headers records
      = join [LF] (join [COMMA] (map csv_cell headers) #
                   map (\<lambda>r. join [COMMA] (map csv_cell (record_cells headers r))) records) @ [LF]"
    by (simp add: writeCsv_def h record_cells_def stringify_csv_cell comp_def)
  also have "\<dots> = concat (map (\<lambda>x. x @ [LF]) (join [COMMA] (map csv_cell headers) #
                   map (\<lambda>r. join [COMMA] (map csv_cell (record_cells headers r))) records))"
    by (rule join_terminated) simp
  also have "\<dots> = concat (map csv_line (headers # map (record_cells headers) records))"
    by (simp add: csv_line_def comp_def)
  finally show ?thesis .
qed

lemma parse_rows_writeCsv:
  assumes "headers \<noteq> []" "\<forall>h \<in> set headers. \<not> needs_quoting h"
  shows "parse_rows (writeCsv headers records) = headers # map (record_cells headers) records"
proof -
  have ne: "\<forall>vs \<in> set (headers # map (record_cells headers) records). vs \<noteq> []"
    using assms(1) by (auto simp: record_cells_def)
  have "parse_loop (writeCsv headers records) False [] [] []
      = parse_loop (concat (map csv_line (headers # map (record_cells headers) records)) @ []) False [] [] []"
    by (simp add: writeCsv_lines[OF assms(2)])
  also have "\<dots> = parse_loop [] False [] [] ([] @ (headers # map (record_cells headers) records))"
    using ne by (rule parse_csv_lines)
  finally show ?thesis by (simp add: parse_rows_def)
qed

lemma parseCsv_rows:
  "parseCsv content =
     (if parse_rows content \<noteq> [] \<and> last (parse_rows content) = [[]] then butlast (parse_rows content)
      else parse_rows content)"
proof -
  have "length r = 1 \<and> r ! 0 = [] \<longleftrightarrow> r = [[]]" for r :: "string list"
    by (cases r) auto
  then show ?thesis by (simp add: parseCsv_def Let_def)
qed

lemma rec_get_set_same: "k \<noteq> ''__proto__'' \<Longrightarrow> rec_get (rec_set_str r k s) k = JStr s"
  by (simp add: rec_get_def rec_set_str_def obj_get_def obj_put_def update_conv')

lemma rec_get_set_other: "h \<noteq> k \<Longrightarrow> rec_get (rec_set_str r k s) h = rec_get r h"
  by (simp add: rec_get_def rec_set_str_def obj_get_def obj_put_def update_conv')

lemma zip_record_other: "h \<notin> set headers \<Longrightarrow> rec_get (zip_record headers cells r) h = rec_get r h"
  by (induction headers cells r rule: zip_record.induct) (auto simp: rec_get_set_other)

lemma zip_record_field:
  "h \<in> set headers \<Longrightarrow> h \<noteq> ''__proto__'' \<Longrightarrow>
   rec_get (zip_record headers (map f headers) r) h = JStr (f h)"
proof (induction headers arbitrary: r)
  case Nil
  then show ?case by simp
next
  case (Cons a headers)
  show ?case
  proof (cases "h \<in> set headers")
    case True
    then show ?thesis using Cons.IH[OF True Cons.prems(2)] by simp
  next
    case False
    with Cons.prems have "h = a" by simp
    with False Cons.prems(2) show ?thesis
      by (simp add: zip_record_other rec_get_set_same)
  qed
qed


lemma record_cells_single_empty:
  "record_cells headers r = [[]] \<longleftrightarrow> length headers = 1 \<and> cell_text (rec_get r (hd headers)) = []"
  by (cases headers) (auto simp: record_cells_def)

lemma readCsv_writeCsv_kept:
  assumes "headers \<noteq> []" "\<forall>h \<in> set headers. \<not> needs_quoting h"
    and "records \<noteq> [] \<longrightarrow> record_cells headers (last records) \<noteq> [[]]"
  shows "readCsv (writeCsv headers records)
           = map (\<lambda>r. zip_record headers (record_cells headers r) []) records"
proof (cases "records = []")
  case True
  have pr: "parse_rows (writeCsv headers records) = [headers]"
    using True by (simp add: parse_rows_writeCsv[OF assms(1,2)])
  have "parseCsv (writeCsv headers records) = (if headers = [[]] then [] else [headers])"
    unfolding parseCsv_rows pr by simp
  then have "readCsv (writeCsv headers records) = []"
    unfolding readCsv_def by simp
  with True show ?thesis by simp
next
  case False
  with assms(3) have "last (headers # map (record_cells headers) records) \<noteq> [[]]"
    by (simp add: last_map)
  moreover note parse_rows_writeCsv[OF assms(1,2), of records]
  ultimately show ?thesis
    by (simp add: readCsv_def parseCsv_rows comp_def)
qed

lemma readCsv_writeCsv_dropped:
  assumes "headers \<noteq> []" "\<forall>h \<in> set headers. \<not> needs_quoting h"
    and "records \<noteq> []" "record_cells headers (last records) = [[]]"
  shows "readCsv (writeCsv headers records)
           = map (\<lambda>r. zip_record headers (record_cells headers r) []) (butlast records)"
proof -
  from assms(3,4) have "last (headers # map (record_cells headers) records) = [[]]"
    by (simp add: last_map)
  moreover from assms(3) have "butlast (headers # map (record_cells headers) records)
      = headers # map (record_cells headers) (butlast records)"
    by (simp add: map_butlast)
  moreover note parse_rows_writeCsv[OF assms(1,2), of records]
  ultimately show ?thesis
    by (simp add: readCsv_def parseCsv_rows comp_def)
qed

text \<open>
  C1 (as the code has it). For a non-empty list of header names, none of which contains a
  comma, a double quote, a carriage return or a line feed (\<open>writeCsv\<close> does not quote the
  header line) and none of which is \<open>__proto__\<close> (an assignment the decoded record
  ignores), and for records that hold a string under every header, with commas, quotes and
  line breaks allowed in the values: decoding the encoded text gives records equal to the
  originals field by field, unless the table has one column and its last record holds the
  empty string there.
\<close>

theorem readCsv_writeCsv_roundtrip:
  assumes "headers \<noteq> []"
    and "\<forall>h \<in> set headers. \<not> needs_quoting h \<and> h \<noteq> ''__proto__''"
    and "\<forall>r \<in> set records. \<forall>h \<in> set headers. \<exists>s. rec_get r h = JStr s"
    and "\<not> (length headers = 1 \<and> records \<noteq> [] \<and> rec_get (last records) (hd headers) = JStr [])"
  shows "map (\<lambda>r. map (rec_get r) headers) (readCsv (writeCsv headers records))
           = map (\<lambda>r. map (rec_get r) headers) records"
proof -
  have clean: "\<forall>h \<in> set headers. \<not> needs_quoting h" using assms(2) by simp
  have kept: "records \<noteq> [] \<longrightarrow> record_cells headers (last records) \<noteq> [[]]"
  proof
    assume ne: "records \<noteq> []"
    show "record_cells headers (last records) \<noteq> [[]]"
    proof
      assume "record_cells headers (last records) = [[]]"
      then have l: "length headers = 1" and e: "cell_text (rec_get (last records) (hd headers)) = []"
        by (simp_all add: record_cells_single_empty)
      from assms(1) ne assms(3) obtain s where s: "rec_get (last records) (hd headers) = JStr s"
        by (meson hd_in_set last_in_set)
      with e have "s = []" by (simp add: cell_text_def)
      with s l ne assms(4) show False by simp
    qed
  qed
  have field: "rec_get (zip_record headers (record_cells headers r) []) h = rec_get r h"
    if "r \<in> set records" "h \<in> set headers" for r h
  proof -
    from that assms(3) obtain s where s: "rec_get r h = JStr s" by blast
    from that(2) assms(2) have "h \<noteq> ''__proto__''" by simp
    from zip_record_field[OF that(2) this, of "\<lambda>h. cell_text (rec_get r h)" "[]"] s
    show ?thesis by (simp add: record_cells_def cell_text_def)
  qed
  show ?thesis
    unfolding readCsv_writeCsv_kept[OF assms(1) clean kept]
    by (simp add: comp_def field cong: map_cong)
qed

text \<open>
  The round trip at a table of two columns with a comma, quotes, a carriage return and a line
  feed in its values, and a last record of empty strings.
\<close>

theorem readCsv_writeCsv_roundtrip_witness:
  "map (\<lambda>r. map (rec_get r) [''name'', ''note''])
     (readCsv (writeCsv [''name'', ''note'']
        [[(''name'', JStr ''a,b''), (''note'', JStr (''say '' @ [DQUOTE] @ ''hi'' @ [DQUOTE, CR, LF] @ ''there''))],
         [(''name'', JStr []), (''note'', JStr [])]]))
   = [[JStr ''a,b'', JStr (''say '' @ [DQUOTE] @ ''hi'' @ [DQUOTE, CR, LF] @ ''there'')],
      [JStr [], JStr []]]"
  using readCsv_writeCsv_roundtrip[of "[''name'', ''note'']"
      "[[(''name'', JStr ''a,b''), (''note'', JStr (''say '' @ [DQUOTE] @ ''hi'' @ [DQUOTE, CR, LF] @ ''there''))],
        [(''name'', JStr []), (''note'', JStr [])]]"]
  by (simp add: needs_quoting_def rec_get_def obj_get_def DQUOTE_def COMMA_def LF_def CR_def)

text \<open>
  C1 as stated fails: a one-column table whose last record holds the empty string comes back
  without that record.
\<close>

theorem readCsv_writeCsv_roundtrip_counterexample:
  "readCsv (writeCsv [''name''] [[(''name'', JStr ''x'')], [(''name'', JStr [])]])
     = [[(''name'', JStr ''x'')]]"
  by (simp add: readCsv_def parseCsv_def parse_rows_def writeCsv_def stringifyCsvValue_def
      rec_get_def obj_get_def needs_quoting_def rec_set_str_def obj_put_def
      DQUOTE_def COMMA_def LF_def CR_def)

text \<open>
  The other conditions of the round trip are needed as well: a header with a comma is split,
  an empty header list loses the records, and a string stored under \<open>__proto__\<close> is not
  read back.
\<close>

lemma roundtrip_needs_restrictions:
  "rec_get (hd (readCsv (writeCsv [''a,b''] [[(''a,b'', JStr ''x'')]]))) ''a,b'' = JUndefined"
  "readCsv (writeCsv [] [[(''a'', JStr ''x'')]]) = []"
  "rec_get (hd (readCsv (writeCsv [''__proto__''] [[(''__proto__'', JStr ''x'')], [(''__proto__'', JStr ''y'')]])))
     ''__proto__'' = JProto ''__proto__''"
  by code_simp+

text \<open>
  C10 (as the code has it). \<open>parseCsv\<close> drops the last parsed row exactly when that row is
  one empty cell; a last row left pending at the end of the input is never such a row, so
  only a row ended by a line break is dropped. For header names that contain no comma, double
  quote, carriage return or line feed (\<open>writeCsv\<close> writes the header line unquoted): a
  one-column table whose last record holds the empty string decodes to one record fewer, and
  a last record of two or more empty cells is kept.
\<close>

theorem parseCsv_drops_single_empty_row:
  "(parseCsv content =
      (if parse_rows content \<noteq> [] \<and> last (parse_rows content) = [[]] then butlast (parse_rows content)
       else parse_rows content))
   \<and> (case parse_loop content False [] [] [] of
        (rows, row, cell) \<Rightarrow>
          parseCsv content =
            (if cell \<noteq> [] \<or> row \<noteq> [] then rows @ [row @ [cell]]
             else if rows \<noteq> [] \<and> last rows = [[]] then butlast rows
             else rows))
   \<and> (\<not> needs_quoting h \<and> records \<noteq> [] \<and> rec_get (last records) h = JStr []
        \<longrightarrow> length (readCsv (writeCsv [h] records)) = length records - 1)
   \<and> (2 \<le> length headers \<and> (\<forall>h \<in> set headers. \<not> needs_quoting h) \<and> records \<noteq> []
        \<and> (\<forall>h \<in> set headers. rec_get (last records) h = JStr [])
        \<longrightarrow> length (readCsv (writeCsv headers records)) = length records
            \<and> last (parseCsv (writeCsv headers records)) = map (\<lambda>h. []) headers)"
proof (intro conjI impI)
  show "parseCsv content =
      (if parse_rows content \<noteq> [] \<and> last (parse_rows content) = [[]] then butlast (parse_rows content)
       else parse_rows content)"
    by (rule parseCsv_rows)
next
  obtain rows row cell where l: "parse_loop content False [] [] [] = (rows, row, cell)"
    by (cases "parse_loop content False [] [] []")
  have flushed: "row @ [cell] \<noteq> [[]]" if "cell \<noteq> [] \<or> row \<noteq> []"
    using that by (cases row) auto
  have "parseCsv content =
            (if cell \<noteq> [] \<or> row \<noteq> [] then rows @ [row @ [cell]]
             else if rows \<noteq> [] \<and> last rows = [[]] then butlast rows
             else rows)"
  proof (cases "cell \<noteq> [] \<or> row \<noteq> []")
    case True
    then have "parse_rows content = rows @ [row @ [cell]]" by (simp add: parse_rows_def l)
    with flushed[OF True] True show ?thesis by (simp add: parseCsv_rows)
  next
    case False
    then have "parse_rows content = rows" by (simp add: parse_rows_def l)
    with False show ?thesis by (simp add: parseCsv_rows)
  qed
  then show "case parse_loop content False [] [] [] of
        (rows, row, cell) \<Rightarrow>
          parseCsv content =
            (if cell \<noteq> [] \<or> row \<noteq> [] then rows @ [row @ [cell]]
             else if rows \<noteq> [] \<and> last rows = [[]] then butlast rows
             else rows)"
    by (simp add: l)
next
  assume a: "\<not> needs_quoting h \<and> records \<noteq> [] \<and> rec_get (last records) h = JStr []"
  then have "record_cells [h] (last records) = [[]]"
    by (simp add: record_cells_def cell_text_def)
  with a show "length (readCsv (writeCsv [h] records)) = length records - 1"
    by (simp add: readCsv_writeCsv_dropped)
next
  assume a: "2 \<le> length headers \<and> (\<forall>h \<in> set headers. \<not> needs_quoting h) \<and> records \<noteq> []
        \<and> (\<forall>h \<in> set headers. rec_get (last records) h = JStr [])"
  then have ne: "headers \<noteq> []" by auto
  from a have clean: "\<forall>h \<in> set headers. \<not> needs_quoting h" by simp
  from a have kept: "records \<noteq> [] \<longrightarrow> record_cells headers (last records) \<noteq> [[]]"
    by (auto simp: record_cells_single_empty)
  show "length (readCsv (writeCsv headers records)) = length records"
    by (simp add: readCsv_writeCsv_kept[OF ne clean kept])
  from a have cells: "record_cells headers (last records) = map (\<lambda>h. []) headers"
    by (simp add: record_cells_def cell_text_def)
  from a cells have nl: "last (headers # map (record_cells headers) records) \<noteq> [[]]"
    by (cases headers) (auto simp: last_map)
  from a cells nl show "last (parseCsv (writeCsv headers records)) = map (\<lambda>h. []) headers"
    by (simp add: parseCsv_rows parse_rows_writeCsv[OF ne clean] last_map)
qed

text \<open>
  The parts at concrete inputs: texts that end in zero, one, two and three line feeds, texts
  whose last row is not ended by a line break (a cell, two empty cells, a quoted empty cell),
  a one-column table ending in an empty value, and a two-column table whose only record is
  empty.
\<close>

theorem parseCsv_drops_single_empty_row_witness:
  "parseCsv [LF] = [] \<and> parse_rows [LF] = [[[]]]
   \<and> parseCsv (''a'' @ [LF]) = [[''a'']]
   \<and> parseCsv (''a'' @ [LF, LF]) = [[''a'']]
   \<and> parseCsv (''a'' @ [LF, LF, LF]) = [[''a''], [[]]]
   \<and> parseCsv (''a'' @ [LF] @ ''b'') = [[''a''], [''b'']]
   \<and> parseCsv (''a'' @ [LF] @ '','') = [[''a''], [[], []]]
   \<and> parseCsv (''a'' @ [LF, DQUOTE, DQUOTE]) = [[''a'']]
   \<and> length (readCsv (writeCsv [''name''] [[(''name'', JStr ''x'')], [(''name'', JStr [])]])) = 1
   \<and> length (readCsv (writeCsv [''name'', ''note''] [[(''name'', JStr []), (''note'', JStr [])]])) = 1
   \<and> last (parseCsv (writeCsv [''name'', ''note''] [[(''name'', JStr []), (''note'', JStr [])]])) = [[], []]"
proof -
  have l: "parse_loop [LF] False [] [] [] = ([[[]]], [], [])"
    "parse_loop (''a'' @ [LF]) False [] [] [] = ([[''a'']], [], [])"
    "parse_loop (''a'' @ [LF, LF]) False [] [] [] = ([[''a''], [[]]], [], [])"
    "parse_loop (''a'' @ [LF, LF, LF]) False [] [] [] = ([[''a''], [[]], [[]]], [], [])"
    "parse_loop (''a'' @ [LF] @ ''b'') False [] [] [] = ([[''a'']], [], ''b'')"
    "parse_loop (''a'' @ [LF] @ '','') False [] [] [] = ([[''a'']], [[]], [])"
    "parse_loop (''a'' @ [LF, DQUOTE, DQUOTE]) False [] [] [] = ([[''a'']], [], [])"
    by (simp_all add: DQUOTE_def COMMA_def LF_def CR_def)
  note t = parseCsv_drops_single_empty_row
  from t[of "[LF]" "''name''" "[[(''name'', JStr ''x'')], [(''name'', JStr [])]]" "[''name'', ''note'']"]
    t[of "''a'' @ [LF]" "''name''" "[[(''name'', JStr []), (''note'', JStr [])]]" "[''name'', ''note'']"]
    t[of "''a'' @ [LF, LF]" "''name''" "[]" "[]"]
    t[of "''a'' @ [LF, LF, LF]" "''name''" "[]" "[]"]
    t[of "''a'' @ [LF] @ ''b''" "''name''" "[]" "[]"]
    t[of "''a'' @ [LF] @ '',''" "''name''" "[]" "[]"]
    t[of "''a'' @ [LF, DQUOTE, DQUOTE]" "''name''" "[]" "[]"]
  show ?thesis
    unfolding l
    by (simp add: needs_quoting_def rec_get_def obj_get_def parse_rows_def DQUOTE_def COMMA_def LF_def CR_def)
qed

text \<open>
  C10 as stated fails without the condition on the header names: with the one header
  \<open>a\<close>, line feed, \<open>b\<close> and one record holding the empty string, the text written is
  \<open>a\<close>, \<open>b\<close> and an empty line; the empty line is dropped, \<open>b\<close> is read as a record, and
  the decoded table has one record, as many as the original.
\<close>

theorem parseCsv_drops_single_empty_row_counterexample:
  "length (readCsv (writeCsv [''a'' @ [LF] @ ''b''] [[(''a'' @ [LF] @ ''b'', JStr [])]])) = 1
   \<and> readCsv (writeCsv [''a'' @ [LF] @ ''b''] [[(''a'' @ [LF] @ ''b'', JStr [])]]) = [[(''a'', JStr ''b'')]]
   \<and> rec_get (last [[(''a'' @ [LF] @ ''b'', JStr [])]]) (''a'' @ [LF] @ ''b'') = JStr []"
  by code_simp

text \<open>
  C2 (as the code has it). The text of scenario B, a double quote, \<open>a,b\<close>, a line feed, two
  double quotes, \<open>c\<close> and three double quotes, decodes to one row of one cell: \<open>a,b\<close>, a
  line feed, a double quote, \<open>c\<close> and a double quote. Each doubled quote inside the quoted
  cell yields one quote, the one before \<open>c\<close> included.
\<close>

theorem parseCsv_scenario_B:
  "parseCsv (DQUOTE # ''a,b'' @ [LF, DQUOTE, DQUOTE] @ ''c'' @ [DQUOTE, DQUOTE, DQUOTE])
     = [[''a,b'' @ [LF, DQUOTE] @ ''c'' @ [DQUOTE]]]"
  by (simp add: parseCsv_def parse_rows_def COMMA_def DQUOTE_def LF_def CR_def)

text \<open>
  C2 as stated fails: the decoded cell is not \<open>a,b\<close>, a line feed, \<open>c\<close> and a double quote.
\<close>

theorem parseCsv_scenario_B_counterexample:
  "parseCsv (DQUOTE # ''a,b'' @ [LF, DQUOTE, DQUOTE] @ ''c'' @ [DQUOTE, DQUOTE, DQUOTE])
     \<noteq> [[''a,b'' @ [LF] @ ''c'' @ [DQUOTE]]]"
  by (simp add: parseCsv_def parse_rows_def COMMA_def DQUOTE_def LF_def CR_def)

section \<open>Properties of the loaders and the archive cross-check\<close>

lemma compare_loop_result:
  "compare_loop github gitlab keys (rows, c) =
     (rows @ map (\<lambda>k. compare_row (obj_get github k) (obj_get gitlab k))
               (filter (\<lambda>k. matched gitlab k \<and> \<not> resolved gitlab k) keys),
      c\<lparr>missing := missing c + length (filter (\<lambda>k. \<not> matched gitlab k) keys),
        archived := archived c + length (filter (\<lambda>k. matched gitlab k \<and> resolved gitlab k) keys),
        not_archived := not_archived c
           + length (filter (\<lambda>k. matched gitlab k \<and> \<not> resolved gitlab k) keys)\<rparr>)"
proof (induction keys arbitrary: rows c)
  case Nil
  show ?case by simp
next
  case (Cons key keys)
  show ?case
    by (simp add: Cons.IH Let_def matched_def resolved_def)
qed

lemma compare_result:
  "compare github gitlab =
     (map (\<lambda>k. compare_row (obj_get github k) (obj_get gitlab k))
          (filter (\<lambda>k. matched gitlab k \<and> \<not> resolved gitlab k) (sort (Object_keys github))),
      \<lparr>missing = length (filter (\<lambda>k. \<not> matched gitlab k) (sort (Object_keys github))),
       archived = length (filter (\<lambda>k. matched gitlab k \<and> resolved gitlab k) (sort (Object_keys github))),
       not_archived = length (filter (\<lambda>k. matched gitlab k \<and> \<not> resolved gitlab k) (sort (Object_keys github))),
       total_github = length (sort (Object_keys github))\<rparr>)"
  by (simp add: compare_def Let_def compare_loop_result)

lemma three_way_lengths:
  "length (filter (\<lambda>k. \<not> M k) ks) + length (filter (\<lambda>k. M k \<and> R k) ks)
     + length (filter (\<lambda>k. M k \<and> \<not> R k) ks) = length ks"
  by (induction ks) auto

lemma toLowerCase_Nil [simp]: "toLowerCase s = [] \<longleftrightarrow> s = []"
  by (simp add: toLowerCase_def)

lemma obj_get_truthy:
  "k \<notin> set object_prototype_names \<Longrightarrow> slot_truthy (obj_get obj k) \<longleftrightarrow> k \<in> set (Object_keys obj)"
  by (auto simp: obj_get_def Object_keys_def map_of_eq_None_iff split: option.splits
      dest: map_of_SomeD intro: rev_image_eqI)

lemma obj_put_fresh: "k \<notin> set (Object_keys obj) \<Longrightarrow> obj_put obj k v = obj @ [(k, v)]"
  unfolding obj_put_def Object_keys_def by (induction obj) auto

lemma obj_get_put_same: "obj_get (obj_put obj k v) k = Own v"
  by (simp add: obj_get_def obj_put_def update_conv')

lemma load_step_first_seen:
  assumes "loadable record"
  shows "\<exists>duplicates1. load_step (repos, duplicates) record = Inr (first_seen_put repos record, duplicates1)"
proof -
  from assms obtain name where n: "trimmed_name record = Inr name"
    by (auto simp: loadable_def split: sum.splits)
  then have key: "identity_key record = toLowerCase name" by (simp add: identity_key_def)
  with assms have np: "toLowerCase name \<notin> set object_prototype_names" by (simp add: loadable_def)
  show ?thesis
  proof (cases "name = []")
    case True
    then show ?thesis using n key by (simp add: load_step_def first_seen_put_def)
  next
    case False
    note ne = this
    show ?thesis
    proof (cases "toLowerCase name \<in> set (Object_keys repos)")
      case True
      with np have t: "slot_truthy (obj_get repos (toLowerCase name))" by (simp add: obj_get_truthy)
      have "\<exists>l. obj_get (if \<not> slot_truthy (obj_get duplicates (toLowerCase name))
                           then obj_put duplicates (toLowerCase name) [] else duplicates) (toLowerCase name) = Own l"
      proof (cases "slot_truthy (obj_get duplicates (toLowerCase name))")
        case True
        with np show ?thesis by (cases "obj_get duplicates (toLowerCase name)") (auto simp: obj_get_def split: option.splits)
      next
        case False
        then show ?thesis by (simp add: obj_get_put_same)
      qed
      then obtain l where "obj_get (if \<not> slot_truthy (obj_get duplicates (toLowerCase name))
                           then obj_put duplicates (toLowerCase name) [] else duplicates) (toLowerCase name) = Own l" ..
      with t True ne n key show ?thesis
        by (simp add: load_step_def first_seen_put_def Let_def)
    next
      case False
      with np have t: "\<not> slot_truthy (obj_get repos (toLowerCase name))" by (simp add: obj_get_truthy)
      with False ne n key show ?thesis
        by (simp add: load_step_def first_seen_put_def Let_def obj_put_fresh)
    qed
  qed
qed

lemma load_loop_first_seen:
  "\<forall>r \<in> set records. loadable r \<Longrightarrow>
   \<exists>duplicates1. load_loop records (repos, duplicates) = Inr (foldl first_seen_put repos records, duplicates1)"
proof (induction records arbitrary: repos duplicates)
  case Nil
  show ?case by simp
next
  case (Cons r records)
  then have "loadable r" and rest: "\<forall>r \<in> set records. loadable r" by simp_all
  from load_step_first_seen[OF this(1)] obtain d1 where
    "load_step (repos, duplicates) r = Inr (first_seen_put repos r, d1)" by blast
  moreover from Cons.IH[OF rest] obtain d2 where
    "load_loop records (first_seen_put repos r, d1) = Inr (foldl first_seen_put (first_seen_put repos r) records, d2)"
    by blast
  ultimately show ?case by simp
qed

lemma Object_keys_append [simp]: "Object_keys (xs @ ys) = Object_keys xs @ Object_keys ys"
  by (simp add: Object_keys_def)

lemma distinct_first_seen:
  "distinct (Object_keys repos) \<Longrightarrow> distinct (Object_keys (foldl first_seen_put repos records))"
proof (induction records arbitrary: repos)
  case Nil
  then show ?case by simp
next
  case (Cons r records)
  have "distinct (Object_keys (first_seen_put repos r))"
    using Cons.prems by (simp add: first_seen_put_def Object_keys_def)
  then show ?case using Cons.IH by simp
qed

lemma Object_keys_Nil [simp]: "Object_keys [] = []"
  by (simp add: Object_keys_def)

lemma map_of_first_seen_put:
  "map_of (first_seen_put repos r) k =
     (case map_of repos k of
        Some v \<Rightarrow> Some v
      | None \<Rightarrow> if k \<noteq> [] \<and> identity_key r = k then Some r else None)"
proof (cases "identity_key r = [] \<or> identity_key r \<in> set (Object_keys repos)")
  case True
  then have "first_seen_put repos r = repos" by (simp add: first_seen_put_def)
  moreover have "map_of repos k = None \<Longrightarrow> k \<noteq> [] \<Longrightarrow> identity_key r \<noteq> k"
    using True by (auto simp: Object_keys_def map_of_eq_None_iff)
  ultimately show ?thesis by (cases "map_of repos k") auto
next
  case False
  then have "first_seen_put repos r = repos @ [(identity_key r, r)]" by (simp add: first_seen_put_def)
  with False show ?thesis by (cases "map_of repos k") (auto simp: map_add_def)
qed

lemma map_of_first_seen:
  "map_of (foldl first_seen_put repos records) k =
     (case map_of repos k of
        Some v \<Rightarrow> Some v
      | None \<Rightarrow> if k = [] then None else find (\<lambda>r. identity_key r = k) records)"
proof (induction records arbitrary: repos)
  case Nil
  show ?case by (simp split: option.splits)
next
  case (Cons r records)
  show ?case
    unfolding foldl_Cons Cons.IH map_of_first_seen_put
    by (cases "map_of repos k") simp_all
qed

lemma find_unique_set:
  assumes "set xs = set ys" "\<forall>x \<in> set xs. \<forall>y \<in> set xs. Q x \<longrightarrow> Q y \<longrightarrow> x = y"
  shows "find Q xs = find Q ys"
proof (cases "find Q xs")
  case None
  then have "\<not> (\<exists>x \<in> set ys. Q x)" using assms(1) by (simp add: find_None_iff)
  then have "find Q ys = None" by (simp add: find_None_iff)
  with None show ?thesis by simp
next
  case (Some x)
  then have x: "x \<in> set xs" "Q x" by (auto simp: find_Some_iff)
  then have "\<exists>y \<in> set ys. Q y" using assms(1) by auto
  then obtain y where y: "find Q ys = Some y" by (cases "find Q ys") (auto simp: find_None_iff)
  then have "y \<in> set xs" "Q y" using assms(1) by (auto simp: find_Some_iff)
  with x assms(2) have "x = y" by blast
  with Some y show ?thesis by simp
qed

lemma obj_get_cong: "map_of obj = map_of obj' \<Longrightarrow> obj_get obj k = obj_get obj' k"
  by (simp add: obj_get_def)

lemma sort_keys_cong:
  assumes "distinct (Object_keys X)" "distinct (Object_keys X')" "map_of X = map_of X'"
  shows "sort (Object_keys X) = sort (Object_keys X')"
proof -
  from assms(3) have "dom (map_of X) = dom (map_of X')" by simp
  then have "set (Object_keys X) = set (Object_keys X')" by (simp add: dom_map_of_conv_image_fst Object_keys_def)
  then have "sorted_list_of_set (set (Object_keys X)) = sorted_list_of_set (set (Object_keys X'))" by simp
  then have "sort (remdups (Object_keys X)) = sort (remdups (Object_keys X'))"
    by (simp only: sorted_list_of_set_sort_remdups)
  with assms(1,2) show ?thesis by (simp only: distinct_remdups_id)
qed

lemma compare_cong:
  assumes "distinct (Object_keys X)" "distinct (Object_keys X')" "map_of X = map_of X'" "map_of Y = map_of Y'"
  shows "compare X Y = compare X' Y'"
proof -
  have gx: "obj_get X = obj_get X'" and gy: "obj_get Y = obj_get Y'"
    using assms(3,4) by (simp_all add: fun_eq_iff obj_get_def)
  have m: "matched Y = matched Y'" "resolved Y = resolved Y'"
    by (simp_all add: fun_eq_iff matched_def resolved_def gy)
  have k: "sort (Object_keys X) = sort (Object_keys X')"
    using assms(1-3) by (rule sort_keys_cong)
  show ?thesis
    by (simp only: compare_result gx gy m k)
qed

lemma loadGithubReport_first_seen:
  "\<forall>r \<in> set records. loadable r \<Longrightarrow>
   \<exists>warnings. loadGithubReport records = Inr (foldl first_seen_put [] records, warnings)"
  using load_loop_first_seen[of records "[]" "[]"] by (auto simp: loadGithubReport_def)

lemma loadGitlabReport_first_seen:
  "\<forall>r \<in> set records. loadable r \<Longrightarrow>
   \<exists>warnings. loadGitlabReport records = Inr (foldl first_seen_put [] records, warnings)"
  using load_loop_first_seen[of records "[]" "[]"] by (auto simp: loadGitlabReport_def)

lemma archive_report_first_seen:
  assumes "\<forall>r \<in> set gh. loadable r" "\<forall>r \<in> set gl. loadable r"
  shows "archive_report gh gl = Inr (compare (foldl first_seen_put [] gh) (foldl first_seen_put [] gl))"
  using loadGithubReport_first_seen[OF assms(1)] loadGitlabReport_first_seen[OF assms(2)]
  by (auto simp: archive_report_def)

lemma unique_keys_set: "set xs = set ys \<Longrightarrow> unique_keys xs = unique_keys ys"
  by (simp add: unique_keys_def)

lemma first_seen_perm:
  assumes "set xs = set ys" "unique_keys xs"
  shows "map_of (foldl first_seen_put [] xs) = map_of (foldl first_seen_put [] ys)"
proof
  fix k
  show "map_of (foldl first_seen_put [] xs) k = map_of (foldl first_seen_put [] ys) k"
  proof (cases "k = []")
    case True
    then show ?thesis by (simp add: map_of_first_seen)
  next
    case False
    have "\<forall>x \<in> set xs. \<forall>y \<in> set xs. identity_key x = k \<longrightarrow> identity_key y = k \<longrightarrow> x = y"
    proof (intro ballI impI)
      fix x y
      assume "x \<in> set xs" "y \<in> set xs" "identity_key x = k" "identity_key y = k"
      with assms(2) False show "x = y" by (simp add: unique_keys_def)
    qed
    from find_unique_set[OF assms(1) this] show ?thesis by (simp add: map_of_first_seen)
  qed
qed

lemma archive_report_perm:
  assumes "\<forall>r \<in> set gh. loadable r" "\<forall>r \<in> set gl. loadable r"
    and "unique_keys gh" "unique_keys gl"
    and "set gh' = set gh" "set gl' = set gl"
  shows "archive_report gh' gl' = archive_report gh gl"
proof -
  have l: "\<forall>r \<in> set gh'. loadable r" "\<forall>r \<in> set gl'. loadable r" using assms by simp_all
  have "compare (foldl first_seen_put [] gh') (foldl first_seen_put [] gl')
      = compare (foldl first_seen_put [] gh) (foldl first_seen_put [] gl)"
    by (rule compare_cong)
       (simp_all add: distinct_first_seen first_seen_perm[OF assms(5)[symmetric] assms(3)]
          first_seen_perm[OF assms(6)[symmetric] assms(4)])
  then show ?thesis
    by (simp add: archive_report_first_seen[OF assms(1,2)] archive_report_first_seen[OF l])
qed

lemma loadable_name_ok: "loadable r \<Longrightarrow> name_ok r"
  by (simp add: loadable_def name_ok_def)

text \<open>
  What the loader does on a table none of whose keys is an inherited member name: the
  mapping has one entry for each distinct non-empty key, the first record with that key.
\<close>

lemma first_seen_keys:
  "set (Object_keys (foldl first_seen_put [] records)) = identity_key ` set records - {[]}"
proof -
  have "set (Object_keys (foldl first_seen_put [] records)) = dom (map_of (foldl first_seen_put [] records))"
    by (simp add: Object_keys_def dom_map_of_conv_image_fst)
  also have "\<dots> = {k. k \<noteq> [] \<and> find (\<lambda>r. identity_key r = k) records \<noteq> None}"
    by (auto simp: dom_def map_of_first_seen)
  also have "\<dots> = identity_key ` set records - {[]}"
    by (auto simp: find_None_iff)
  finally show ?thesis .
qed

lemma loadGithubReport_canonical:
  assumes "\<forall>r \<in> set records. loadable r"
  shows "\<exists>repos warnings.
           loadGithubReport records = Inr (repos, warnings)
         \<and> distinct (Object_keys repos)
         \<and> set (Object_keys repos) = identity_key ` set records - {[]}
         \<and> (\<forall>k. k \<noteq> [] \<longrightarrow> map_of repos k = find (\<lambda>r. identity_key r = k) records)
         \<and> length repos = card (identity_key ` set records - {[]})"
proof -
  from loadGithubReport_first_seen[OF assms] obtain warnings where
    l: "loadGithubReport records = Inr (foldl first_seen_put [] records, warnings)" by blast
  have d: "distinct (Object_keys (foldl first_seen_put [] records))"
    by (rule distinct_first_seen) simp
  have "length (foldl first_seen_put [] records) = length (Object_keys (foldl first_seen_put [] records))"
    by (simp add: Object_keys_def)
  also have "\<dots> = card (set (Object_keys (foldl first_seen_put [] records)))"
    using d by (simp add: distinct_card)
  finally have c: "length (foldl first_seen_put [] records) = card (identity_key ` set records - {[]})"
    by (simp only: first_seen_keys)
  have m: "\<forall>k. k \<noteq> [] \<longrightarrow> map_of (foldl first_seen_put [] records) k = find (\<lambda>r. identity_key r = k) records"
    by (simp add: map_of_first_seen)
  from l d c m first_seen_keys[of records] show ?thesis by blast
qed

section \<open>Properties of the staleness comparison\<close>

lemma classify_tag: "classify a b \<in> set outcome_tags"
  by (cases a; cases b) (simp_all add: outcome_tags_def)


lemma good_row_tag:
  "good_row d row \<Longrightarrow> rec_get row ''status'' \<in> JStr ` set outcome_tags"
  unfolding good_row_def using classify_tag by (metis imageI)

lemma toDate_or_empty: "toDate d (js_or v (JStr [])) = toDate d v"
  by (simp add: toDate_def js_or_def)

lemma change_row_fields:
  "rec_get (change_row n a b s) ''status'' = JStr s"
  "rec_get (change_row n a b s) ''githubPushedAt'' = a"
  "rec_get (change_row n a b s) ''gitlabUpdatedAt'' = b"
  "rec_get (change_row n a b s) ''name'' = JStr n"
  by (simp_all add: change_row_def rec_get_def obj_get_def)

lemma count_status_snoc:
  "count_status s (results @ [row]) = count_status s results + (if rec_get row ''status'' = JStr s then 1 else 0)"
  by (simp add: count_status_def)

lemma compare_pair_cases:
  "compare_pair d name repo project c =
     (case (toDate d (getGithubTimestamp repo), toDate d (pickGitlabTimestamp project)) of
        (None, None) \<Rightarrow>
          (change_row name (js_or (getGithubTimestamp repo) (JStr [])) (js_or (pickGitlabTimestamp project) (JStr []))
             ''unknown_timestamps'', c\<lparr>unknown := unknown c + 1\<rparr>)
      | (None, Some gl) \<Rightarrow>
          (change_row name (js_or (getGithubTimestamp repo) (JStr [])) (js_or (pickGitlabTimestamp project) (JStr []))
             ''gitlab_has_timestamp_only'', c\<lparr>gitlabNewer := gitlabNewer c + 1\<rparr>)
      | (Some gh, None) \<Rightarrow>
          (change_row name (js_or (getGithubTimestamp repo) (JStr [])) (js_or (pickGitlabTimestamp project) (JStr []))
             ''github_has_timestamp_only'', c\<lparr>githubNewerOrEqual := githubNewerOrEqual c + 1\<rparr>)
      | (Some gh, Some gl) \<Rightarrow>
          if gl > gh then
            (change_row name (getGithubTimestamp repo) (pickGitlabTimestamp project) ''gitlab_newer'',
             c\<lparr>gitlabNewer := gitlabNewer c + 1\<rparr>)
          else
            (change_row name (getGithubTimestamp repo) (pickGitlabTimestamp project) ''github_newer_or_equal'',
             c\<lparr>githubNewerOrEqual := githubNewerOrEqual c + 1\<rparr>))"
  by (simp add: compare_pair_def Let_def)

lemma compare_pair_good:
  "good_row d (fst (compare_pair d name repo project c))"
  unfolding compare_pair_cases good_row_def
  by (cases "toDate d (getGithubTimestamp repo)"; cases "toDate d (pickGitlabTimestamp project)")
     (simp_all add: change_row_fields toDate_or_empty)

lemma compare_pair_name:
  "rec_get (fst (compare_pair d name repo project c)) ''name'' = JStr name"
  unfolding compare_pair_cases
  by (cases "toDate d (getGithubTimestamp repo)"; cases "toDate d (pickGitlabTimestamp project)")
     (simp_all add: change_row_fields)

lemma compare_pair_tallied:
  assumes "tallied (results, c)"
  shows "tallied (results @ [fst (compare_pair d name repo project (c\<lparr>compared := compared c + 1\<rparr>))],
                  snd (compare_pair d name repo project (c\<lparr>compared := compared c + 1\<rparr>)))"
  using assms unfolding compare_pair_cases tallied_def
  by (cases "toDate d (getGithubTimestamp repo)"; cases "toDate d (pickGitlabTimestamp project)")
     (simp_all add: change_row_fields count_status_snoc)

lemma name_ok_trimmed: "name_ok r \<Longrightarrow> trimmed_name r = Inr (repo_name r)"
  by (auto simp: name_ok_def repo_name_def split: sum.splits)

lemma index_loop_total:
  "\<forall>r \<in> set records. name_ok r \<Longrightarrow> \<exists>m. index_loop records gitlabByName = Inr m"
proof (induction records arbitrary: gitlabByName)
  case Nil
  show ?case by simp
next
  case (Cons r records)
  then have "trimmed_name r = Inr (repo_name r)" by (simp add: name_ok_trimmed)
  then have "\<exists>m1. index_step gitlabByName r = Inr m1"
    by (simp add: index_step_def Let_def)
  then obtain m1 where "index_step gitlabByName r = Inr m1" ..
  moreover from Cons have "\<exists>m. index_loop records m1 = Inr m" by simp
  ultimately show ?case by simp
qed

lemma tallied_missing [simp]:
  "tallied (results, c\<lparr>missingInGitLab := x\<rparr>) = tallied (results, c)"
  by (simp add: tallied_def)

lemma change_loop_result:
  assumes "\<forall>r \<in> set repos. name_ok r" "tallied (results, c)" "list_all (good_row d) results"
  shows "\<exists>results1 c1.
           change_loop d m repos (results, c) = Inr (results1, c1)
         \<and> tallied (results1, c1)
         \<and> list_all (good_row d) results1
         \<and> map (\<lambda>row. rec_get row ''name'') results1
             = map (\<lambda>row. rec_get row ''name'') results @ map (\<lambda>r. JStr (repo_name r)) (filter (joined m) repos)"
  using assms
proof (induction repos arbitrary: results c)
  case Nil
  then show ?case by simp
next
  case (Cons r repos)
  then have t: "trimmed_name r = Inr (repo_name r)" and rest: "\<forall>r \<in> set repos. name_ok r"
    by (simp_all add: name_ok_trimmed)
  show ?case
  proof (cases "repo_name r \<noteq> [] \<and> slot_truthy (obj_get m (toLowerCase (repo_name r)))")
    case False
    then have nj: "\<not> joined m r" by (simp add: joined_def t)
    from False have
      "change_loop d m (r # repos) (results, c) = change_loop d m repos (results, c)
       \<or> change_loop d m (r # repos) (results, c)
            = change_loop d m repos (results, c\<lparr>missingInGitLab := missingInGitLab c + 1\<rparr>)"
      by (auto simp: t Let_def)
    then show ?thesis
    proof
      assume e: "change_loop d m (r # repos) (results, c) = change_loop d m repos (results, c)"
      from Cons.IH[OF rest Cons.prems(2,3)] show ?thesis unfolding e using nj by simp
    next
      assume e: "change_loop d m (r # repos) (results, c)
            = change_loop d m repos (results, c\<lparr>missingInGitLab := missingInGitLab c + 1\<rparr>)"
      from Cons.prems(2) have "tallied (results, c\<lparr>missingInGitLab := missingInGitLab c + 1\<rparr>)" by simp
      from Cons.IH[OF rest this Cons.prems(3)] show ?thesis unfolding e using nj by simp
    qed
  next
    case True
    then have j: "joined m r" by (simp add: joined_def t)
    define p where "p = compare_pair d (repo_name r) r (obj_get m (toLowerCase (repo_name r)))
                          (c\<lparr>compared := compared c + 1\<rparr>)"
    have e: "change_loop d m (r # repos) (results, c) = change_loop d m repos (results @ [fst p], snd p)"
      using True by (simp add: t Let_def p_def split: prod.splits)
    have t1: "tallied (results @ [fst p], snd p)"
      unfolding p_def using Cons.prems(2) by (rule compare_pair_tallied)
    have g1: "list_all (good_row d) (results @ [fst p])"
      using Cons.prems(3) by (simp add: p_def compare_pair_good)
    have n1: "rec_get (fst p) ''name'' = JStr (repo_name r)"
      by (simp add: p_def compare_pair_name)
    from Cons.IH[OF rest t1 g1] show ?thesis unfolding e using j n1 by simp
  qed
qed

lemma tallied_start:
  "tallied ([], \<lparr>compared = 0, missingInGitLab = 0, gitlabNewer = 0, githubNewerOrEqual = 0, unknown = 0\<rparr>)"
  by (simp add: tallied_def count_status_def)







lemma joined_pairs_Nil [simp]: "joined_pairs [] gl = []"
  by (simp add: joined_pairs_def)



section \<open>The claims on the loaders and the comparisons\<close>

text \<open>
  C6 fails on the code: a report whose only row is named \<open>constructor\<close> makes either loader
  throw. The read \<open>repos[key]\<close> on the empty object finds the inherited member, the row is
  taken for a duplicate, and \<open>duplicates[key].push\<close> is not a function.
\<close>

theorem loader_prototype_key:
  "loadGithubReport (readCsv (''name'' @ [LF] @ ''constructor'' @ [LF]))
     = Inl (TypeError ''duplicates[key].push is not a function'')
   \<and> loadGitlabReport (readCsv (''name'' @ [LF] @ ''constructor'' @ [LF]))
     = Inl (TypeError ''duplicates[key].push is not a function'')"
  by code_simp

text \<open>
  C5. In \<open>compare\<close> every key of the left mapping takes exactly one branch: \<open>missing\<close>,
  \<open>archived\<close> and \<open>not_archived\<close> count the keys not found on the right, found archived and
  found not archived; their sum is \<open>total_github\<close>, the number of keys of the left mapping,
  and the number of rows is \<open>not_archived\<close>.
\<close>

theorem compare_counters_partition:
  "(case compare github gitlab of
      (rows, c) \<Rightarrow>
        missing c = length (filter (\<lambda>k. \<not> matched gitlab k) (sort (Object_keys github)))
      \<and> archived c = length (filter (\<lambda>k. matched gitlab k \<and> resolved gitlab k) (sort (Object_keys github)))
      \<and> not_archived c
          = length (filter (\<lambda>k. matched gitlab k \<and> \<not> resolved gitlab k) (sort (Object_keys github)))
      \<and> missing c + archived c + not_archived c = total_github c
      \<and> total_github c = length (Object_keys github)
      \<and> (distinct (Object_keys github) \<longrightarrow> total_github c = card (set (Object_keys github)))
      \<and> length rows = not_archived c)"
  using three_way_lengths[of "matched gitlab" "sort (Object_keys github)" "resolved gitlab"]
  by (simp add: compare_result distinct_card)

text \<open>The partition at a left mapping of three keys, one for each branch.\<close>

theorem compare_counters_partition_witness:
  "(case compare [(''foo'', [(''name'', JStr ''Foo'')]), (''bar'', [(''name'', JStr ''bar'')]),
                  (''baz'', [(''name'', JStr ''baz'')])]
                 [(''foo'', [(''name'', JStr ''foo''), (''archived'', JStr ''TRUE'')]),
                  (''bar'', [(''name'', JStr ''BAR''), (''archived'', JStr ''false'')])] of
      (rows, c) \<Rightarrow>
        c = \<lparr>missing = 1, archived = 1, not_archived = 1, total_github = 3\<rparr>
      \<and> missing c + archived c + not_archived c = total_github c
      \<and> total_github c = card (set (Object_keys [(''foo'', [(''name'', JStr ''Foo'')]),
                                 (''bar'', [(''name'', JStr ''bar'')]), (''baz'', [(''name'', JStr ''baz'')])]))
      \<and> length rows = not_archived c)"
proof -
  have d: "distinct (Object_keys [(''foo'', [(''name'', JStr ''Foo'')]), (''bar'', [(''name'', JStr ''bar'')]),
                  (''baz'', [(''name'', JStr ''baz'')])])"
    by code_simp
  have ev: "snd (compare [(''foo'', [(''name'', JStr ''Foo'')]), (''bar'', [(''name'', JStr ''bar'')]),
                  (''baz'', [(''name'', JStr ''baz'')])]
                 [(''foo'', [(''name'', JStr ''foo''), (''archived'', JStr ''TRUE'')]),
                  (''bar'', [(''name'', JStr ''BAR''), (''archived'', JStr ''false'')])])
            = \<lparr>missing = 1, archived = 1, not_archived = 1, total_github = 3\<rparr>"
    by code_simp
  from compare_counters_partition[where github = "[(''foo'', [(''name'', JStr ''Foo'')]), (''bar'', [(''name'', JStr ''bar'')]),
                  (''baz'', [(''name'', JStr ''baz'')])]"
                 and gitlab = "[(''foo'', [(''name'', JStr ''foo''), (''archived'', JStr ''TRUE'')]),
                  (''bar'', [(''name'', JStr ''BAR''), (''archived'', JStr ''false'')])]"] d ev
  show ?thesis by (auto split: prod.splits)
qed

text \<open>
  C7. A key found on the right is counted in \<open>archived\<close>, with no row, exactly when the
  \<open>archived\<close> field of what was found, as a string in lower case, is \<open>true\<close> or \<open>1\<close>;
  otherwise it is counted in \<open>not_archived\<close> and gets one row, with fields of both sides and
  the status \<open>gitlab_not_archived\<close>. Scenario A gives one row, for \<open>bar\<close>, and the counters
  missing 0, archived 1, not archived 1.
\<close>

theorem compare_archived_policy:
  "fst (compare github gitlab)
     = map (\<lambda>k. compare_row (obj_get github k) (obj_get gitlab k))
           (filter (\<lambda>k. matched gitlab k \<and> \<not> resolved gitlab k) (sort (Object_keys github)))
   \<and> archived (snd (compare github gitlab))
       = length (filter (\<lambda>k. matched gitlab k \<and> resolved gitlab k) (sort (Object_keys github)))
   \<and> not_archived (snd (compare github gitlab))
       = length (filter (\<lambda>k. matched gitlab k \<and> \<not> resolved gitlab k) (sort (Object_keys github)))
   \<and> resolved gitlab key
       = (toLowerCase (js_String (slot_field (obj_get gitlab key) ''archived'')) \<in> {''true'', ''1''})
   \<and> rec_get (compare_row ghRepo glProject) ''status'' = JStr ''gitlab_not_archived''
   \<and> rec_get (compare_row ghRepo glProject) ''github_name'' = slot_field ghRepo ''name''
   \<and> rec_get (compare_row ghRepo glProject) ''gitlab_archived'' = slot_field glProject ''archived''
   \<and> archive_report scenario_left scenario_right
       = Inr ([[(''github_name'', JStr ''bar''), (''github_name_with_owner'', JStr []),
                (''github_archived'', JStr []), (''github_visibility'', JStr []),
                (''gitlab_path_with_namespace'', JStr []), (''gitlab_archived'', JStr ''false''),
                (''status'', JStr ''gitlab_not_archived'')]],
              \<lparr>missing = 0, archived = 1, not_archived = 1, total_github = 2\<rparr>)"
proof -
  have ev: "archive_report scenario_left scenario_right
       = Inr ([[(''github_name'', JStr ''bar''), (''github_name_with_owner'', JStr []),
                (''github_archived'', JStr []), (''github_visibility'', JStr []),
                (''gitlab_path_with_namespace'', JStr []), (''gitlab_archived'', JStr ''false''),
                (''status'', JStr ''gitlab_not_archived'')]],
              \<lparr>missing = 0, archived = 1, not_archived = 1, total_github = 2\<rparr>)"
    by code_simp
  have row: "rec_get (compare_row ghRepo glProject) ''status'' = JStr ''gitlab_not_archived''"
    "rec_get (compare_row ghRepo glProject) ''github_name'' = slot_field ghRepo ''name''"
    "rec_get (compare_row ghRepo glProject) ''gitlab_archived'' = slot_field glProject ''archived''"
    by (simp_all add: compare_row_def rec_get_def obj_get_def)
  show ?thesis
    by (simp add: compare_result ev row resolved_def archivedValue_def)
qed




text \<open>
  C4 (as the code has it). The archive cross-check emits its rows in ascending order of the
  keys of the left mapping (the code units of the normalized names), and when the records
  of each input can be keyed and no two different records of one input share a key, any
  permutation of the left and of the right input rows gives the same rows and counters.
  The staleness comparison does not sort: its rows follow the order of the GitHub input
  rows.
\<close>

theorem compare_order:
  assumes "\<forall>r \<in> set gh. loadable r" "\<forall>r \<in> set gl. loadable r"
    and "unique_keys gh" "unique_keys gl"
    and "mset gh' = mset gh" "mset gl' = mset gl"
  shows "fst (compare github gitlab)
           = map (\<lambda>k. compare_row (obj_get github k) (obj_get gitlab k))
                 (filter (\<lambda>k. matched gitlab k \<and> \<not> resolved gitlab k) (sort (Object_keys github)))
       \<and> sorted (filter (\<lambda>k. matched gitlab k \<and> \<not> resolved gitlab k) (sort (Object_keys github)))
       \<and> archive_report gh' gl' = archive_report gh gl
       \<and> (\<exists>gitlabByName results c.
             index_loop gl [] = Inr gitlabByName
           \<and> compareLastChanges d gh gl = Inr (results, c)
           \<and> map (\<lambda>row. rec_get row ''name'') results
               = map (\<lambda>r. JStr (repo_name r)) (filter (joined gitlabByName) gh))"
proof (intro conjI)
  show "fst (compare github gitlab)
           = map (\<lambda>k. compare_row (obj_get github k) (obj_get gitlab k))
                 (filter (\<lambda>k. matched gitlab k \<and> \<not> resolved gitlab k) (sort (Object_keys github)))"
    by (simp add: compare_result)
  show "sorted (filter (\<lambda>k. matched gitlab k \<and> \<not> resolved gitlab k) (sort (Object_keys github)))"
    by (rule sorted_wrt_filter) (rule sorted_sort)
  have s1: "set gh' = set gh" using assms(5) by (rule mset_eq_setD)
  have s2: "set gl' = set gl" using assms(6) by (rule mset_eq_setD)
  show "archive_report gh' gl' = archive_report gh gl"
    by (rule archive_report_perm[OF assms(1-4) s1 s2])
  have ok: "\<forall>r \<in> set gh. name_ok r" "\<forall>r \<in> set gl. name_ok r"
    using assms(1,2) by (simp_all add: loadable_name_ok)
  from index_loop_total[OF ok(2)] obtain m where m: "index_loop gl [] = Inr m" by blast
  from change_loop_result[OF ok(1) tallied_start, of d m] obtain results c where
    "change_loop d m gh
          ([], \<lparr>compared = 0, missingInGitLab = 0, gitlabNewer = 0, githubNewerOrEqual = 0, unknown = 0\<rparr>)
        = Inr (results, c)"
    "map (\<lambda>row. rec_get row ''name'') results = map (\<lambda>r. JStr (repo_name r)) (filter (joined m) gh)"
    by auto
  with m show "\<exists>gitlabByName results c.
             index_loop gl [] = Inr gitlabByName
           \<and> compareLastChanges d gh gl = Inr (results, c)
           \<and> map (\<lambda>row. rec_get row ''name'') results
               = map (\<lambda>r. JStr (repo_name r)) (filter (joined gitlabByName) gh)"
    by (simp add: compareLastChanges_def)
qed

text \<open>
  The ordering facts at scenario A: the one emitted key, the report unchanged when both
  inputs are reversed, and the report itself.
\<close>

theorem compare_order_witness:
  "fst (compare [(''foo'', [(''name'', JStr ''Foo'')]), (''bar'', [(''name'', JStr ''bar'')])]
                [(''bar'', [(''name'', JStr ''BAR''), (''archived'', JStr ''false'')])])
     = map (\<lambda>k. compare_row (obj_get [(''foo'', [(''name'', JStr ''Foo'')]), (''bar'', [(''name'', JStr ''bar'')])] k)
                             (obj_get [(''bar'', [(''name'', JStr ''BAR''), (''archived'', JStr ''false'')])] k))
           [''bar'']
   \<and> archive_report (rev scenario_left) (rev scenario_right) = archive_report scenario_left scenario_right
   \<and> archive_report scenario_left scenario_right
       = Inr ([[(''github_name'', JStr ''bar''), (''github_name_with_owner'', JStr []),
                (''github_archived'', JStr []), (''github_visibility'', JStr []),
                (''gitlab_path_with_namespace'', JStr []), (''gitlab_archived'', JStr ''false''),
                (''status'', JStr ''gitlab_not_archived'')]],
              \<lparr>missing = 0, archived = 1, not_archived = 1, total_github = 2\<rparr>)"
proof -
  have h1: "\<forall>r \<in> set scenario_left. loadable r" by code_simp
  have h2: "\<forall>r \<in> set scenario_right. loadable r" by code_simp
  have h3: "unique_keys scenario_left" by code_simp
  have h4: "unique_keys scenario_right" by code_simp
  have h5: "mset (rev scenario_left) = mset scenario_left" by simp
  have h6: "mset (rev scenario_right) = mset scenario_right" by simp
  have k: "filter (\<lambda>k. matched [(''bar'', [(''name'', JStr ''BAR''), (''archived'', JStr ''false'')])] k
                      \<and> \<not> resolved [(''bar'', [(''name'', JStr ''BAR''), (''archived'', JStr ''false'')])] k)
             (sort (Object_keys [(''foo'', [(''name'', JStr ''Foo'')]), (''bar'', [(''name'', JStr ''bar'')])]))
           = [''bar'']"
    by code_simp
  have ev: "archive_report scenario_left scenario_right
       = Inr ([[(''github_name'', JStr ''bar''), (''github_name_with_owner'', JStr []),
                (''github_archived'', JStr []), (''github_visibility'', JStr []),
                (''gitlab_path_with_namespace'', JStr []), (''gitlab_archived'', JStr ''false''),
                (''status'', JStr ''gitlab_not_archived'')]],
              \<lparr>missing = 0, archived = 1, not_archived = 1, total_github = 2\<rparr>)"
    by code_simp
  from compare_order[OF h1 h2 h3 h4 h5 h6,
      of "[(''foo'', [(''name'', JStr ''Foo'')]), (''bar'', [(''name'', JStr ''bar'')])]"
         "[(''bar'', [(''name'', JStr ''BAR''), (''archived'', JStr ''false'')])]" date_time_sample]
  show ?thesis unfolding k using ev by simp
qed

text \<open>
  C4 as stated fails for the staleness comparison: GitHub rows \<open>b\<close>, \<open>a\<close> give result rows
  \<open>b\<close>, \<open>a\<close>, not sorted, and the permuted input \<open>a\<close>, \<open>b\<close> gives another order.
\<close>

theorem compare_order_counterexample:
  "compareLastChanges date_time_sample
     [[(''name'', JStr ''b'')], [(''name'', JStr ''a'')]]
     [[(''name'', JStr ''a'')], [(''name'', JStr ''b'')]]
   = Inr ([[(''name'', JStr ''b''), (''githubPushedAt'', JStr []), (''gitlabUpdatedAt'', JStr []),
            (''status'', JStr ''unknown_timestamps'')],
           [(''name'', JStr ''a''), (''githubPushedAt'', JStr []), (''gitlabUpdatedAt'', JStr []),
            (''status'', JStr ''unknown_timestamps'')]],
          \<lparr>compared = 2, missingInGitLab = 0, gitlabNewer = 0, githubNewerOrEqual = 0, unknown = 2\<rparr>)
   \<and> compareLastChanges date_time_sample
     [[(''name'', JStr ''a'')], [(''name'', JStr ''b'')]]
     [[(''name'', JStr ''a'')], [(''name'', JStr ''b'')]]
   = Inr ([[(''name'', JStr ''a''), (''githubPushedAt'', JStr []), (''gitlabUpdatedAt'', JStr []),
            (''status'', JStr ''unknown_timestamps'')],
           [(''name'', JStr ''b''), (''githubPushedAt'', JStr []), (''gitlabUpdatedAt'', JStr []),
            (''status'', JStr ''unknown_timestamps'')]],
          \<lparr>compared = 2, missingInGitLab = 0, gitlabNewer = 0, githubNewerOrEqual = 0, unknown = 2\<rparr>)"
  by code_simp

text \<open>
  With two rows of the same key in one input the first one wins, so there the order of the
  input rows shows in the report.
\<close>

lemma archive_report_duplicate_order:
  "archive_report [[(''name'', JStr ''Foo'')], [(''name'', JStr ''foo'')]]
                  [[(''name'', JStr ''foo''), (''archived'', JStr ''false'')]]
     = Inr ([[(''github_name'', JStr ''Foo''), (''github_name_with_owner'', JStr []),
              (''github_archived'', JStr []), (''github_visibility'', JStr []),
              (''gitlab_path_with_namespace'', JStr []), (''gitlab_archived'', JStr ''false''),
              (''status'', JStr ''gitlab_not_archived'')]],
            \<lparr>missing = 0, archived = 0, not_archived = 1, total_github = 1\<rparr>)"
  "archive_report [[(''name'', JStr ''foo'')], [(''name'', JStr ''Foo'')]]
                  [[(''name'', JStr ''foo''), (''archived'', JStr ''false'')]]
     = Inr ([[(''github_name'', JStr ''foo''), (''github_name_with_owner'', JStr []),
              (''github_archived'', JStr []), (''github_visibility'', JStr []),
              (''gitlab_path_with_namespace'', JStr []), (''gitlab_archived'', JStr ''false''),
              (''status'', JStr ''gitlab_not_archived'')]],
            \<lparr>missing = 0, archived = 0, not_archived = 1, total_github = 1\<rparr>)"
  by code_simp+

section \<open>Properties of the enrichment pool\<close>

lemma settled_cong:
  assumes "\<And>j. j < n \<Longrightarrow> (if D j then g j else []) = (if D' j then g j else [])"
  shows "settled D g n = settled D' g n"
proof -
  have "map (\<lambda>j. if D j then g j else []) [0..<n] = map (\<lambda>j. if D' j then g j else []) [0..<n]"
    by (rule map_cong) (simp_all add: assms)
  then show ?thesis by (simp only: settled_def)
qed

lemma settled_add_list:
  assumes "i \<in> set xs" "distinct xs" "\<not> D i" "\<And>j. D' j = (D j \<or> j = i)"
  shows "mset (concat (map (\<lambda>j. if D' j then g j else []) xs))
           = mset (g i) + mset (concat (map (\<lambda>j. if D j then g j else []) xs))"
proof -
  define f where "f = (\<lambda>j. if D j then g j else [])"
  define f' where "f' = (\<lambda>j. if D' j then g j else [])"
  have fi: "f' i = g i" "f i = []" using assms(3) by (simp_all add: f_def f'_def assms(4))
  have fo: "j \<noteq> i \<Longrightarrow> f' j = f j" for j by (simp add: f_def f'_def assms(4))
  have "mset (concat (map f' xs)) = mset (g i) + mset (concat (map f xs))"
    using assms(1,2)
  proof (induction xs)
    case Nil
    then show ?case by simp
  next
    case (Cons x xs)
    show ?case
    proof (cases "x = i")
      case True
      with Cons.prems have ni: "i \<notin> set xs" by simp
      have "map f' xs = map f xs"
      proof (intro map_cong refl)
        fix y assume "y \<in> set xs"
        with ni have "y \<noteq> i" by auto
        then show "f' y = f y" by (rule fo)
      qed
      then have "concat (map f' xs) = concat (map f xs)" by (rule arg_cong)
      then show ?thesis using True fi by simp
    next
      case False
      with Cons have "mset (concat (map f' xs)) = mset (g i) + mset (concat (map f xs))" by simp
      then show ?thesis using False by (simp add: fo)
    qed
  qed
  then show ?thesis by (simp only: f_def f'_def)
qed

lemma settled_add:
  assumes "i < n" "\<not> D i" "\<And>j. D' j = (D j \<or> j = i)"
  shows "mset (settled D' g n) = mset (g i) + mset (settled D g n)"
  unfolding settled_def using assms by (intro settled_add_list) simp_all

lemma settled_all: "(\<And>j. j < length xs \<Longrightarrow> D j) \<Longrightarrow> settled D (\<lambda>j. g (xs ! j)) (length xs) = concat (map g xs)"
proof -
  assume "\<And>j. j < length xs \<Longrightarrow> D j"
  then have "map (\<lambda>j. if D j then g (xs ! j) else []) [0..<length xs] = map (\<lambda>j. g (xs ! j)) [0..<length xs]"
    by simp
  also have "\<dots> = map g (map (nth xs) [0..<length xs])" by simp
  also have "\<dots> = map g xs" by (simp only: map_nth)
  finally show ?thesis by (simp add: settled_def)
qed

lemma settled_none: "(\<And>j. j < n \<Longrightarrow> \<not> D j) \<Longrightarrow> settled D g n = []"
  by (simp add: settled_def)

lemma enrich_filled: "\<not> unfilled x \<Longrightarrow> enrich fetch x = x"
  by (simp add: enrich_def)

lemma item_warnings_filled: "\<not> unfilled x \<Longrightarrow> item_warnings fetch x = []"
  by (simp add: item_warnings_def)

lemma pool_inv_current:
  assumes "pool_inv P0 fetch p A" "index p < length P0"
  shows "projects p ! index p = P0 ! index p" "index p \<notin> A"
  using assms by (auto simp: pool_inv_def)

lemma pool_inv_advance:
  assumes inv: "pool_inv P0 fetch p A"
    and A': "\<forall>j \<in> A'. j < Suc (index p) \<and> j < length P0 \<and> unfilled (P0 ! j)"
    and same: "\<And>j. j < length P0 \<Longrightarrow> (j < Suc (index p) \<and> j \<notin> A') \<noteq> (j < index p \<and> j \<notin> A)
                 \<Longrightarrow> \<not> unfilled (P0 ! j)"
  shows "pool_inv P0 fetch (p\<lparr>index := index p + 1\<rparr>) A'"
proof -
  from inv have len: "length (projects p) = length P0"
    and pr: "\<And>j. j < length P0 \<Longrightarrow>
               projects p ! j = (if j < index p \<and> j \<notin> A then enrich fetch (P0 ! j) else P0 ! j)"
    and wa: "mset (filter is_warning (console p))
        = mset (settled (\<lambda>j. j < index p \<and> j \<notin> A) (\<lambda>j. item_warnings fetch (P0 ! j)) (length P0))"
    and fe: "fetched p
        = length (settled (\<lambda>j. j < index p \<and> j \<notin> A) (\<lambda>j. if unfilled (P0 ! j) then [P0 ! j] else [])
                   (length P0))"
    by (simp_all add: pool_inv_def)
  have pr': "projects p ! j = (if j < Suc (index p) \<and> j \<notin> A' then enrich fetch (P0 ! j) else P0 ! j)"
    if "j < length P0" for j
  proof (cases "(j < Suc (index p) \<and> j \<notin> A') = (j < index p \<and> j \<notin> A)")
    case True
    then show ?thesis using pr[OF that] by simp
  next
    case False
    from same[OF that False] have "enrich fetch (P0 ! j) = P0 ! j" by (rule enrich_filled)
    then show ?thesis using pr[OF that] by simp
  qed
  have w: "settled (\<lambda>j. j < index p \<and> j \<notin> A) (\<lambda>j. item_warnings fetch (P0 ! j)) (length P0)
         = settled (\<lambda>j. j < Suc (index p) \<and> j \<notin> A') (\<lambda>j. item_warnings fetch (P0 ! j)) (length P0)"
  proof (rule settled_cong)
    fix j assume j: "j < length P0"
    show "(if j < index p \<and> j \<notin> A then item_warnings fetch (P0 ! j) else [])
        = (if j < Suc (index p) \<and> j \<notin> A' then item_warnings fetch (P0 ! j) else [])"
    proof (cases "(j < Suc (index p) \<and> j \<notin> A') = (j < index p \<and> j \<notin> A)")
      case True
      then show ?thesis by simp
    next
      case False
      from same[OF j False] have "item_warnings fetch (P0 ! j) = []" by (rule item_warnings_filled)
      then show ?thesis by simp
    qed
  qed
  have n: "settled (\<lambda>j. j < index p \<and> j \<notin> A) (\<lambda>j. if unfilled (P0 ! j) then [P0 ! j] else []) (length P0)
         = settled (\<lambda>j. j < Suc (index p) \<and> j \<notin> A') (\<lambda>j. if unfilled (P0 ! j) then [P0 ! j] else []) (length P0)"
  proof (rule settled_cong)
    fix j assume j: "j < length P0"
    show "(if j < index p \<and> j \<notin> A then if unfilled (P0 ! j) then [P0 ! j] else [] else [])
        = (if j < Suc (index p) \<and> j \<notin> A' then if unfilled (P0 ! j) then [P0 ! j] else [] else [])"
    proof (cases "(j < Suc (index p) \<and> j \<notin> A') = (j < index p \<and> j \<notin> A)")
      case True
      then show ?thesis by simp
    next
      case False
      from same[OF j False] show ?thesis by simp
    qed
  qed
  show ?thesis
    unfolding pool_inv_def
  proof (intro conjI)
    show "length (projects (p\<lparr>index := index p + 1\<rparr>)) = length P0" using len by simp
    show "\<forall>j \<in> A'. j < index (p\<lparr>index := index p + 1\<rparr>) \<and> j < length P0 \<and> unfilled (P0 ! j)"
      using A' by simp
    show "\<forall>j < length P0. projects (p\<lparr>index := index p + 1\<rparr>) ! j
            = (if j < index (p\<lparr>index := index p + 1\<rparr>) \<and> j \<notin> A' then enrich fetch (P0 ! j) else P0 ! j)"
      using pr' by simp
    show "mset (filter is_warning (console (p\<lparr>index := index p + 1\<rparr>)))
        = mset (settled (\<lambda>j. j < index (p\<lparr>index := index p + 1\<rparr>) \<and> j \<notin> A')
                  (\<lambda>j. item_warnings fetch (P0 ! j)) (length P0))"
      using wa w by simp
    show "fetched (p\<lparr>index := index p + 1\<rparr>)
        = length (settled (\<lambda>j. j < index (p\<lparr>index := index p + 1\<rparr>) \<and> j \<notin> A')
                    (\<lambda>j. if unfilled (P0 ! j) then [P0 ! j] else []) (length P0))"
      using fe n by simp
  qed
qed

lemma pool_inv_bound:
  "pool_inv P0 fetch p A \<Longrightarrow> j \<in> A \<Longrightarrow> j < index p \<and> j < length P0 \<and> unfilled (P0 ! j)"
  by (simp add: pool_inv_def)

lemma pool_inv_skip:
  assumes inv: "pool_inv P0 fetch p A" and lt: "index p < length P0"
    and filled: "\<not> unfilled (projects p ! index p)"
  shows "pool_inv P0 fetch (p\<lparr>index := index p + 1\<rparr>) A"
proof (rule pool_inv_advance[OF inv])
  show "\<forall>j \<in> A. j < Suc (index p) \<and> j < length P0 \<and> unfilled (P0 ! j)"
    using pool_inv_bound[OF inv] by (auto simp: less_Suc_eq)
  fix j assume "j < length P0" "(j < Suc (index p) \<and> j \<notin> A) \<noteq> (j < index p \<and> j \<notin> A)"
  then have "j = index p" by (auto simp: less_Suc_eq)
  with filled pool_inv_current(1)[OF inv lt] show "\<not> unfilled (P0 ! j)" by simp
qed

lemma pool_inv_await:
  assumes inv: "pool_inv P0 fetch p A" and lt: "index p < length P0"
    and un: "unfilled (projects p ! index p)"
  shows "pool_inv P0 fetch (p\<lparr>index := index p + 1\<rparr>) (insert (index p) A)"
proof (rule pool_inv_advance[OF inv])
  from un pool_inv_current(1)[OF inv lt] have "unfilled (P0 ! index p)" by simp
  with lt show "\<forall>j \<in> insert (index p) A. j < Suc (index p) \<and> j < length P0 \<and> unfilled (P0 ! j)"
    using pool_inv_bound[OF inv] by (auto simp: less_Suc_eq)
  fix j assume "j < length P0"
    "(j < Suc (index p) \<and> j \<notin> insert (index p) A) \<noteq> (j < index p \<and> j \<notin> A)"
  then have False by (auto simp: less_Suc_eq)
  then show "\<not> unfilled (P0 ! j)" ..
qed

lemma pool_inv_return:
  assumes inv: "pool_inv P0 fetch p A" and ge: "length P0 \<le> index p"
  shows "pool_inv P0 fetch (p\<lparr>index := index p + 1\<rparr>) A"
proof (rule pool_inv_advance[OF inv])
  show "\<forall>j \<in> A. j < Suc (index p) \<and> j < length P0 \<and> unfilled (P0 ! j)"
    using pool_inv_bound[OF inv] by (auto simp: less_Suc_eq)
  fix j assume "j < length P0" "(j < Suc (index p) \<and> j \<notin> A) \<noteq> (j < index p \<and> j \<notin> A)"
  with ge have False by auto
  then show "\<not> unfilled (P0 ! j)" ..
qed

lemma claim_inv:
  "pool_inv P0 fetch p A \<Longrightarrow> claim p = (p1, w) \<Longrightarrow>
   pool_inv P0 fetch p1 (case w of Awaiting j \<Rightarrow> insert j A | Returned \<Rightarrow> A)"
proof (induction p arbitrary: p1 w rule: claim.induct)
  case (1 p)
  from "1.prems"(1) have len: "length (projects p) = length P0" by (simp add: pool_inv_def)
  show ?case
  proof (cases "index p \<ge> length (projects p)")
    case True
    with "1.prems"(2) have "p1 = p\<lparr>index := index p + 1\<rparr>" "w = Returned"
      by (subst (asm) claim.simps, simp add: Let_def)+
    with pool_inv_return[OF "1.prems"(1)] True len show ?thesis by simp
  next
    case False
    then have lt: "index p < length P0" using len by simp
    show ?thesis
    proof (cases "truthy (rec_get (projects p ! index p) ''last_repository_updated_at'')")
      case True
      with False "1.prems"(2) have c: "claim (p\<lparr>index := index p + 1\<rparr>) = (p1, w)"
        by (subst (asm) claim.simps) (simp add: Let_def)
      from True have "\<not> unfilled (projects p ! index p)" by (simp add: unfilled_def)
      from pool_inv_skip[OF "1.prems"(1) lt this] have "pool_inv P0 fetch (p\<lparr>index := index p + 1\<rparr>) A" .
      from "1.IH"[OF refl refl _ True this c] False show ?thesis by simp
    next
      case nt: False
      with False "1.prems"(2) have "p1 = p\<lparr>index := index p + 1\<rparr>" "w = Awaiting (index p)"
        by (subst (asm) claim.simps, simp add: Let_def)+
      moreover from nt have "unfilled (projects p ! index p)" by (simp add: unfilled_def)
      note pool_inv_await[OF "1.prems"(1) lt this]
      ultimately show ?thesis by simp
    qed
  qed
qed

lemma settle_fields:
  "index (settle fetch i p) = index p"
  "fetched (settle fetch i p) = fetched p + 1"
  "projects (settle fetch i p)
     = (projects p)[i := (case fetch (rec_get (projects p ! i) ''id'') of
                            Inr detail \<Rightarrow> apply_detail (projects p ! i) detail
                          | Inl message \<Rightarrow> projects p ! i)]"
  "filter is_warning (console (settle fetch i p))
     = filter is_warning (console p)
       @ (case fetch (rec_get (projects p ! i) ''id'') of
            Inr detail \<Rightarrow> []
          | Inl message \<Rightarrow> [Warning (rec_get (projects p ! i) ''id'') message])"
  by (cases "fetch (rec_get (projects p ! i) ''id'')"; simp add: settle_def Let_def)+

lemma settle_inv:
  assumes inv: "pool_inv P0 fetch p A" and i: "i \<in> A"
  shows "pool_inv P0 fetch (settle fetch i p) (A - {i})"
proof -
  from inv have len: "length (projects p) = length P0"
    and pr: "\<And>j. j < length P0 \<Longrightarrow>
               projects p ! j = (if j < index p \<and> j \<notin> A then enrich fetch (P0 ! j) else P0 ! j)"
    and wa: "mset (filter is_warning (console p))
        = mset (settled (\<lambda>j. j < index p \<and> j \<notin> A) (\<lambda>j. item_warnings fetch (P0 ! j)) (length P0))"
    and fe: "fetched p
        = length (settled (\<lambda>j. j < index p \<and> j \<notin> A) (\<lambda>j. if unfilled (P0 ! j) then [P0 ! j] else [])
                   (length P0))"
    by (simp_all add: pool_inv_def)
  from pool_inv_bound[OF inv i] have ib: "i < index p" "i < length P0" and un: "unfilled (P0 ! i)"
    by simp_all
  from pr[OF ib(2)] i have cur: "projects p ! i = P0 ! i" by simp
  have D: "(j < index p \<and> j \<notin> A - {i}) = ((j < index p \<and> j \<notin> A) \<or> j = i)" for j
    using ib(1) by auto
  have nD: "\<not> (i < index p \<and> i \<notin> A)" using i by simp
  have en: "(case fetch (rec_get (P0 ! i) ''id'') of
               Inr detail \<Rightarrow> apply_detail (P0 ! i) detail | Inl message \<Rightarrow> P0 ! i) = enrich fetch (P0 ! i)"
    using un by (simp add: enrich_def)
  have iw: "(case fetch (rec_get (P0 ! i) ''id'') of
               Inr detail \<Rightarrow> [] | Inl message \<Rightarrow> [Warning (rec_get (P0 ! i) ''id'') message])
            = item_warnings fetch (P0 ! i)"
    using un by (simp add: item_warnings_def)
  have w: "mset (settled (\<lambda>j. j < index p \<and> j \<notin> A - {i}) (\<lambda>j. item_warnings fetch (P0 ! j)) (length P0))
         = mset (item_warnings fetch (P0 ! i))
           + mset (settled (\<lambda>j. j < index p \<and> j \<notin> A) (\<lambda>j. item_warnings fetch (P0 ! j)) (length P0))"
    using ib(2) nD D by (rule settled_add)
  have "mset (settled (\<lambda>j. j < index p \<and> j \<notin> A - {i}) (\<lambda>j. if unfilled (P0 ! j) then [P0 ! j] else []) (length P0))
         = mset (if unfilled (P0 ! i) then [P0 ! i] else [])
           + mset (settled (\<lambda>j. j < index p \<and> j \<notin> A) (\<lambda>j. if unfilled (P0 ! j) then [P0 ! j] else []) (length P0))"
    using ib(2) nD D by (rule settled_add)
  then have "size (mset (settled (\<lambda>j. j < index p \<and> j \<notin> A - {i}) (\<lambda>j. if unfilled (P0 ! j) then [P0 ! j] else [])
                           (length P0)))
         = size (mset (if unfilled (P0 ! i) then [P0 ! i] else [])
           + mset (settled (\<lambda>j. j < index p \<and> j \<notin> A) (\<lambda>j. if unfilled (P0 ! j) then [P0 ! j] else []) (length P0)))"
    by (rule arg_cong)
  then have n: "length (settled (\<lambda>j. j < index p \<and> j \<notin> A - {i}) (\<lambda>j. if unfilled (P0 ! j) then [P0 ! j] else [])
                           (length P0))
         = Suc (length (settled (\<lambda>j. j < index p \<and> j \<notin> A) (\<lambda>j. if unfilled (P0 ! j) then [P0 ! j] else [])
                           (length P0)))"
    using un by simp
  show ?thesis
    unfolding pool_inv_def settle_fields
  proof (intro conjI)
    show "length ((projects p)[i := case fetch (rec_get (projects p ! i) ''id'') of
                            Inr detail \<Rightarrow> apply_detail (projects p ! i) detail
                          | Inl message \<Rightarrow> projects p ! i]) = length P0"
      using len by simp
    show "\<forall>j \<in> A - {i}. j < index p \<and> j < length P0 \<and> unfilled (P0 ! j)"
      using pool_inv_bound[OF inv] by simp
    show "\<forall>j < length P0.
            (projects p)[i := case fetch (rec_get (projects p ! i) ''id'') of
                            Inr detail \<Rightarrow> apply_detail (projects p ! i) detail
                          | Inl message \<Rightarrow> projects p ! i] ! j
              = (if j < index p \<and> j \<notin> A - {i} then enrich fetch (P0 ! j) else P0 ! j)"
    proof (intro allI impI)
      fix j assume j: "j < length P0"
      show "(projects p)[i := case fetch (rec_get (projects p ! i) ''id'') of
                            Inr detail \<Rightarrow> apply_detail (projects p ! i) detail
                          | Inl message \<Rightarrow> projects p ! i] ! j
              = (if j < index p \<and> j \<notin> A - {i} then enrich fetch (P0 ! j) else P0 ! j)"
      proof (cases "j = i")
        case True
        then show ?thesis using ib len unfolding cur en by simp
      next
        case False
        then show ?thesis using pr[OF j] by simp
      qed
    qed
    show "mset (filter is_warning (console p)
            @ (case fetch (rec_get (projects p ! i) ''id'') of
                 Inr detail \<Rightarrow> []
               | Inl message \<Rightarrow> [Warning (rec_get (projects p ! i) ''id'') message]))
        = mset (settled (\<lambda>j. j < index p \<and> j \<notin> A - {i}) (\<lambda>j. item_warnings fetch (P0 ! j)) (length P0))"
      unfolding cur iw w using wa by simp
    show "fetched p + 1
        = length (settled (\<lambda>j. j < index p \<and> j \<notin> A - {i}) (\<lambda>j. if unfilled (P0 ! j) then [P0 ! j] else [])
                   (length P0))"
      unfolding n using fe by simp
  qed
qed

lemma awaiting_append [simp]: "awaiting (xs @ ys) = awaiting xs @ awaiting ys"
  by (simp add: awaiting_def)

lemma awaiting_Cons [simp]: "awaiting (w # ws) = worker_item w @ awaiting ws"
  by (simp add: awaiting_def)

lemma awaiting_Nil [simp]: "awaiting [] = []"
  by (simp add: awaiting_def)

lemma awaiting_split:
  assumes "k < length ws" "ws ! k = Awaiting i"
  shows "awaiting ws = awaiting (take k ws) @ i # awaiting (drop (Suc k) ws)"
    and "awaiting (ws[k := w]) = awaiting (take k ws) @ worker_item w @ awaiting (drop (Suc k) ws)"
proof -
  have "ws = take k ws @ ws ! k # drop (Suc k) ws" using assms(1) by (rule id_take_nth_drop)
  then have "awaiting ws = awaiting (take k ws @ Awaiting i # drop (Suc k) ws)" using assms(2) by simp
  then show "awaiting ws = awaiting (take k ws) @ i # awaiting (drop (Suc k) ws)" by simp
  have "ws[k := w] = take k ws @ w # drop (Suc k) ws" using assms(1) by (rule upd_conv_take_nth_drop)
  then have "awaiting (ws[k := w]) = awaiting (take k ws @ w # drop (Suc k) ws)" by simp
  then show "awaiting (ws[k := w]) = awaiting (take k ws) @ worker_item w @ awaiting (drop (Suc k) ws)"
    by simp
qed

lemma awaiting_empty: "waiting ws = [] \<Longrightarrow> awaiting ws = []"
proof -
  assume "waiting ws = []"
  then have "length (filter (\<lambda>w. w \<noteq> Returned) ws) = 0" by (simp add: length_waiting[symmetric])
  then have "\<forall>w \<in> set ws. w = Returned" by (simp add: filter_empty_conv)
  then show ?thesis by (induction ws) auto
qed

lemma waiting_empty_Returned: "waiting ws = [] \<Longrightarrow> ws \<noteq> [] \<Longrightarrow> Returned \<in> set ws"
proof -
  assume "waiting ws = []" and ne: "ws \<noteq> []"
  then have "length (filter (\<lambda>w. w \<noteq> Returned) ws) = 0" by (simp add: length_waiting[symmetric])
  then have "\<forall>w \<in> set ws. w = Returned" by (simp add: filter_empty_conv)
  with ne show ?thesis by (cases ws) auto
qed

lemma pool_step_ok:
  assumes ok: "pool_ok P0 fetch p ws" and k: "k < length ws" and a: "ws ! k = Awaiting i"
    and c: "claim (settle fetch i p) = (p1, w)"
  shows "pool_ok P0 fetch p1 (ws[k := w])"
proof -
  from ok have inv: "pool_inv P0 fetch p (set (awaiting ws))" and d: "distinct (awaiting ws)"
    and r: "Returned \<in> set ws \<longrightarrow> length P0 \<le> index p"
    by (simp_all add: pool_ok_def)
  note sp = awaiting_split(1)[OF k a] awaiting_split(2)[OF k a, of w]
  from sp(1) have iA: "i \<in> set (awaiting ws)" by simp
  from d sp(1) have notin: "i \<notin> set (awaiting (take k ws))" "i \<notin> set (awaiting (drop (Suc k) ws))"
    and d2: "distinct (awaiting (take k ws) @ awaiting (drop (Suc k) ws))"
    by auto
  have rest: "set (awaiting ws) - {i} = set (awaiting (take k ws)) \<union> set (awaiting (drop (Suc k) ws))"
    using notin by (subst sp(1)) auto
  note inv1 = settle_inv[OF inv iA]
  note inv2 = claim_inv[OF inv1 c]
  note cp = claim_props[OF c]
  show ?thesis
  proof (cases w)
    case (Awaiting j)
    with cp have j: "index p \<le> j" "index p1 = Suc j" by (simp_all add: settle_fields)
    have "j \<notin> set (awaiting ws)" using pool_inv_bound[OF inv, of j] j(1) by auto
    then have jn: "j \<notin> set (awaiting (take k ws))" "j \<notin> set (awaiting (drop (Suc k) ws))"
      by (subst (asm) sp(1), simp)+
    have A: "set (awaiting (ws[k := w])) = insert j (set (awaiting ws) - {i})"
      unfolding rest sp(2) using Awaiting by auto
    have D: "distinct (awaiting (ws[k := w]))"
      unfolding sp(2) using Awaiting d2 jn by auto
    have R: "Returned \<in> set (ws[k := w]) \<longrightarrow> length P0 \<le> index p1"
    proof
      assume "Returned \<in> set (ws[k := w])"
      then have "Returned \<in> insert w (set ws)" using set_update_subset_insert by fastforce
      with Awaiting have "Returned \<in> set ws" by simp
      with r cp show "length P0 \<le> index p1" by (simp add: settle_fields)
    qed
    from inv2 Awaiting A D R show ?thesis by (simp add: pool_ok_def)
  next
    case Returned
    with cp have big: "length P0 < index p1"
      using inv1 by (simp add: settle_fields pool_inv_def)
    have A: "set (awaiting (ws[k := w])) = set (awaiting ws) - {i}"
      unfolding rest sp(2) using Returned by auto
    have D: "distinct (awaiting (ws[k := w]))"
      unfolding sp(2) using Returned d2 by auto
    from inv2 Returned A D big show ?thesis by (simp add: pool_ok_def)
  qed
qed

lemma pool_run_ok:
  "pool_ok P0 fetch p ws \<Longrightarrow>
   pool_inv P0 fetch (pool_run fetch sched t p ws) {}
   \<and> (ws \<noteq> [] \<longrightarrow> length P0 \<le> index (pool_run fetch sched t p ws))"
proof (induction fetch sched t p ws rule: pool_run.induct)
  case (1 fetch sched t p ws)
  show ?case
  proof (cases "waiting ws = []")
    case True
    then have run: "pool_run fetch sched t p ws = p" by (subst pool_run.simps) simp
    from True have "awaiting ws = []" by (rule awaiting_empty)
    with "1.prems" have "pool_inv P0 fetch p {}" by (simp add: pool_ok_def)
    moreover have "ws \<noteq> [] \<longrightarrow> length P0 \<le> index p"
      using waiting_empty_Returned[OF True] "1.prems" by (auto simp: pool_ok_def)
    ultimately show ?thesis by (simp add: run)
  next
    case False
    define k where "k = waiting ws ! (sched t mod length (waiting ws))"
    from False have "k \<in> set (waiting ws)" unfolding k_def by simp
    then have k: "k < length ws" "ws ! k \<noteq> Returned" by (simp_all add: waiting_mem)
    then obtain i where a: "ws ! k = Awaiting i" by (cases "ws ! k") auto
    obtain p1 w where c: "claim (settle fetch i p) = (p1, w)" by (cases "claim (settle fetch i p)")
    have run: "pool_run fetch sched t p ws = pool_run fetch sched (t + 1) p1 (ws[k := w])"
      using False a c by (subst pool_run.simps) (simp add: k_def Let_def)
    from pool_step_ok[OF "1.prems" k(1) a c] have ok: "pool_ok P0 fetch p1 (ws[k := w])" .
    from "1.IH"[OF False k_def a c[symmetric] ok] k(1) show ?thesis
      by (auto simp: run)
  qed
qed

lemma start_workers_ok:
  assumes "pool_inv P0 fetch p A" "start_workers m p = (p', ws)"
  shows "pool_inv P0 fetch p' (A \<union> set (awaiting ws)) \<and> distinct (awaiting ws)
       \<and> (\<forall>i \<in> set (awaiting ws). index p \<le> i)
       \<and> (Returned \<in> set ws \<longrightarrow> length P0 \<le> index p')
       \<and> length ws = m \<and> index p \<le> index p'"
  using assms
proof (induction m arbitrary: p A p' ws)
  case 0
  then show ?case by simp
next
  case (Suc m)
  obtain p1 w where c: "claim p = (p1, w)" by (cases "claim p")
  obtain p2 ws1 where s: "start_workers m p1 = (p2, ws1)" by (cases "start_workers m p1")
  from Suc.prems(2) c s have res: "p' = p2" "ws = w # ws1" by simp_all
  note cp = claim_props[OF c]
  from claim_inv[OF Suc.prems(1) c] have inv1: "pool_inv P0 fetch p1 (A \<union> set (worker_item w))"
    by (cases w) simp_all
  from Suc.IH[OF inv1 s] have ih: "pool_inv P0 fetch p2 (A \<union> set (worker_item w) \<union> set (awaiting ws1))"
    "distinct (awaiting ws1)" "\<forall>i \<in> set (awaiting ws1). index p1 \<le> i"
    "Returned \<in> set ws1 \<longrightarrow> length P0 \<le> index p2" "length ws1 = m" "index p1 \<le> index p2"
    by simp_all
  from Suc.prems(1) have len: "length (projects p) = length P0" by (simp add: pool_inv_def)
  have w1: "\<forall>i \<in> set (worker_item w). index p \<le> i \<and> i < index p1"
    using cp by (cases w) auto
  have "distinct (worker_item w @ awaiting ws1)"
    using ih(2,3) w1 by (cases w) auto
  moreover have "\<forall>i \<in> set (worker_item w @ awaiting ws1). index p \<le> i"
    using ih(3) w1 cp by auto
  moreover have "Returned \<in> set (w # ws1) \<longrightarrow> length P0 \<le> index p2"
    using ih(4,6) cp len by (cases w) auto
  moreover have "A \<union> set (worker_item w) \<union> set (awaiting ws1) = A \<union> set (worker_item w @ awaiting ws1)"
    by auto
  ultimately show ?case using ih(1,5,6) cp unfolding res by simp
qed

lemma concat_if_filter: "concat (map (\<lambda>x. if Q x then [x] else []) xs) = filter Q xs"
  by (induction xs) simp_all

lemma pool_inv_start: "pool_inv P fetch \<lparr>index = 0, fetched = 0, projects = P, console = []\<rparr> {}"
  by (simp add: pool_inv_def settled_none)

lemma pool_inv_final:
  assumes inv: "pool_inv P fetch r {}" and far: "P \<noteq> [] \<longrightarrow> length P \<le> index r"
  shows "projects r = map (enrich fetch) P"
    and "mset (filter is_warning (console r)) = mset (concat (map (item_warnings fetch) P))"
    and "fetched r = length (filter unfilled P)"
proof -
  have D: "j < index r \<and> j \<notin> {}" if "j < length P" for j
    using that far by auto
  from inv have len: "length (projects r) = length P"
    and pr: "\<And>j. j < length P \<Longrightarrow>
               projects r ! j = (if j < index r \<and> j \<notin> {} then enrich fetch (P ! j) else P ! j)"
    and wa: "mset (filter is_warning (console r))
        = mset (settled (\<lambda>j. j < index r \<and> j \<notin> {}) (\<lambda>j. item_warnings fetch (P ! j)) (length P))"
    and fe: "fetched r
        = length (settled (\<lambda>j. j < index r \<and> j \<notin> {}) (\<lambda>j. if unfilled (P ! j) then [P ! j] else [])
                   (length P))"
    unfolding pool_inv_def by blast+
  show "projects r = map (enrich fetch) P"
  proof (rule nth_equalityI)
    show "length (projects r) = length (map (enrich fetch) P)" using len by simp
    fix j assume "j < length (projects r)"
    then have j: "j < length P" using len by simp
    from pr[OF j] D[OF j] j show "projects r ! j = map (enrich fetch) P ! j" by simp
  qed
  have "settled (\<lambda>j. j < index r \<and> j \<notin> {}) (\<lambda>j. item_warnings fetch (P ! j)) (length P)
      = concat (map (item_warnings fetch) P)"
    by (rule settled_all) (rule D)
  with wa show "mset (filter is_warning (console r)) = mset (concat (map (item_warnings fetch) P))"
    by simp
  have "settled (\<lambda>j. j < index r \<and> j \<notin> {}) (\<lambda>j. (\<lambda>x. if unfilled x then [x] else []) (P ! j)) (length P)
      = concat (map (\<lambda>x. if unfilled x then [x] else []) P)"
    by (rule settled_all) (rule D)
  with fe show "fetched r = length (filter unfilled P)"
    by (simp add: concat_if_filter)
qed

lemma fill_result:
  "projects (fetchProjectDetailsConcurrently parsed fetch sched P) = map (enrich fetch) P"
  "mset (filter is_warning (console (fetchProjectDetailsConcurrently parsed fetch sched P)))
     = mset (concat (map (item_warnings fetch) P))"
  "fetched (fetchProjectDetailsConcurrently parsed fetch sched P) = length (filter unfilled P)"
proof -
  define m where "m = min (nat (case parsed of None \<Rightarrow> 8 | Some n \<Rightarrow> if n < 1 then 8 else min n 16)) (length P)"
  have pos: "P \<noteq> [] \<longrightarrow> 0 < m"
    by (auto simp: m_def split: option.splits)
  obtain p ws where s: "start_workers m \<lparr>index = 0, fetched = 0, projects = P, console = []\<rparr> = (p, ws)"
    by (cases "start_workers m \<lparr>index = 0, fetched = 0, projects = P, console = []\<rparr>")
  have run: "fetchProjectDetailsConcurrently parsed fetch sched P = pool_run fetch sched 0 p ws"
    using s by (simp add: fetchProjectDetailsConcurrently_def Let_def m_def)
  from start_workers_ok[OF pool_inv_start s] have "pool_ok P fetch p ws" and l: "length ws = m"
    by (simp_all add: pool_ok_def)
  from pool_run_ok[OF this(1), of sched 0]
  have inv: "pool_inv P fetch (pool_run fetch sched 0 p ws) {}"
    and "ws \<noteq> [] \<longrightarrow> length P \<le> index (pool_run fetch sched 0 p ws)"
    by simp_all
  with pos l have far: "P \<noteq> [] \<longrightarrow> length P \<le> index (pool_run fetch sched 0 p ws)" by auto
  note fin = pool_inv_final[OF inv far]
  show "projects (fetchProjectDetailsConcurrently parsed fetch sched P) = map (enrich fetch) P"
    "mset (filter is_warning (console (fetchProjectDetailsConcurrently parsed fetch sched P)))
     = mset (concat (map (item_warnings fetch) P))"
    "fetched (fetchProjectDetailsConcurrently parsed fetch sched P) = length (filter unfilled P)"
    unfolding run by (rule fin)+
qed

lemma rec_get_put: "rec_get (obj_put r k v) k' = (if k' = k then v else rec_get r k')"
  by (simp add: rec_get_def obj_get_def obj_put_def update_conv')

lemma obj_put_twice: "obj_put (obj_put r k v) k v = obj_put r k v"
  by (simp add: obj_put_def)

lemma obj_put_present:
  "map_of r k = Some v \<Longrightarrow> obj_put r k v = r"
  by (simp add: obj_put_def update_triv)

lemma apply_detail_twice: "apply_detail (apply_detail x d) d = apply_detail x d"
proof -
  define v where "v = rec_get d ''last_repository_updated_at''"
  define w where "w = rec_get d ''last_activity_at''"
  define x1 where "x1 = obj_put x ''last_repository_updated_at'' v"
  define y where "y = apply_detail x d"
  have y: "y = (if \<not> truthy (rec_get x1 ''last_activity_at'') then obj_put x1 ''last_activity_at'' w else x1)"
    by (simp add: y_def apply_detail_def Let_def x1_def v_def w_def)
  have m1: "map_of x1 ''last_repository_updated_at'' = Some v"
    by (simp add: x1_def obj_put_def update_conv')
  have my: "map_of y ''last_repository_updated_at'' = Some v"
    using m1 by (simp add: y obj_put_def update_conv')
  then have s1: "obj_put y ''last_repository_updated_at'' v = y" by (rule obj_put_present)
  have s2: "(if \<not> truthy (rec_get y ''last_activity_at'') then obj_put y ''last_activity_at'' w else y) = y"
  proof (cases "truthy (rec_get x1 ''last_activity_at'')")
    case True
    then show ?thesis by (simp add: y)
  next
    case False
    then have "y = obj_put x1 ''last_activity_at'' w" by (simp add: y)
    then have "map_of y ''last_activity_at'' = Some w" by (simp add: obj_put_def update_conv')
    then have "obj_put y ''last_activity_at'' w = y" by (rule obj_put_present)
    then show ?thesis by simp
  qed
  have "apply_detail y d = (if \<not> truthy (rec_get (obj_put y ''last_repository_updated_at'' v) ''last_activity_at'')
                             then obj_put (obj_put y ''last_repository_updated_at'' v) ''last_activity_at'' w
                             else obj_put y ''last_repository_updated_at'' v)"
    by (simp add: apply_detail_def Let_def v_def w_def)
  also have "\<dots> = y" unfolding s1 by (rule s2)
  finally show ?thesis by (simp add: y_def)
qed

lemma apply_detail_id: "rec_get (apply_detail x d) ''id'' = rec_get x ''id''"
  by (simp add: apply_detail_def Let_def rec_get_put)

lemma apply_detail_field:
  "rec_get (apply_detail x d) ''last_repository_updated_at'' = rec_get d ''last_repository_updated_at''"
  by (simp add: apply_detail_def Let_def rec_get_put)

lemma enrich_twice: "enrich fetch (enrich fetch x) = enrich fetch x"
proof (cases "unfilled x")
  case False
  then show ?thesis by (simp add: enrich_def)
next
  case True
  show ?thesis
  proof (cases "fetch (rec_get x ''id'')")
    case (Inl message)
    with True show ?thesis by (simp add: enrich_def)
  next
    case (Inr d)
    with True have e: "enrich fetch x = apply_detail x d" by (simp add: enrich_def)
    show ?thesis
      unfolding e by (simp add: enrich_def apply_detail_id Inr apply_detail_twice)
  qed
qed

text \<open>
  C8. Whatever the concurrency bounds and the orders in which the fetches settle, a second
  run of the fill on the result of the first, with the same \<open>fetch\<close>, returns the same
  projects, and it fetches only for the items whose field is still not filled after the
  first run: an item the first run filled causes no fetch.
\<close>

theorem fill_twice:
  "projects (fetchProjectDetailsConcurrently parsed2 fetch sched2
               (projects (fetchProjectDetailsConcurrently parsed1 fetch sched1 P)))
     = projects (fetchProjectDetailsConcurrently parsed1 fetch sched1 P)
   \<and> fetched (fetchProjectDetailsConcurrently parsed2 fetch sched2
               (projects (fetchProjectDetailsConcurrently parsed1 fetch sched1 P)))
     = length (filter unfilled (projects (fetchProjectDetailsConcurrently parsed1 fetch sched1 P)))"
  by (simp add: fill_result enrich_twice)

lemma concat_single:
  assumes "i < length xs" "\<And>j. j < length xs \<Longrightarrow> j \<noteq> i \<Longrightarrow> g (xs ! j) = []"
  shows "concat (map g xs) = g (xs ! i)"
proof -
  have a: "x \<in> set (take i xs) \<Longrightarrow> g x = []" for x
  proof -
    assume "x \<in> set (take i xs)"
    then obtain j where "j < length (take i xs)" "take i xs ! j = x" by (auto simp: in_set_conv_nth)
    then have "j < length xs" "j \<noteq> i" "xs ! j = x" using assms(1) by auto
    with assms(2) show "g x = []" by blast
  qed
  have b: "x \<in> set (drop (Suc i) xs) \<Longrightarrow> g x = []" for x
  proof -
    assume "x \<in> set (drop (Suc i) xs)"
    then obtain j where "j < length (drop (Suc i) xs)" "drop (Suc i) xs ! j = x"
      by (auto simp: in_set_conv_nth)
    then have "Suc i + j < length xs" "Suc i + j \<noteq> i" "xs ! (Suc i + j) = x" by auto
    with assms(2) show "g x = []" by blast
  qed
  have "xs = take i xs @ xs ! i # drop (Suc i) xs" using assms(1) by (rule id_take_nth_drop)
  then have "concat (map g xs) = concat (map g (take i xs @ xs ! i # drop (Suc i) xs))" by simp
  also have "\<dots> = concat (map g (take i xs)) @ g (xs ! i) @ concat (map g (drop (Suc i) xs))" by simp
  also have "concat (map g (take i xs)) = []" using a by simp
  also have "concat (map g (drop (Suc i) xs)) = []" using b by simp
  finally show ?thesis by simp
qed

text \<open>
  C9. When the fetch throws for exactly one of the items that need it, the fill returns,
  whatever the concurrency bound and the order in which the fetches settle, with exactly one
  warning on the console, for that item; that item is as it was, and every other item that
  needed the field carries what its detail gave.
\<close>

theorem fill_failure_isolated:
  assumes "i < length P" "unfilled (P ! i)" "fetch (rec_get (P ! i) ''id'') = Inl message"
    and "\<forall>j < length P. j \<noteq> i \<longrightarrow> unfilled (P ! j) \<longrightarrow> \<not> isl (fetch (rec_get (P ! j) ''id''))"
  shows "filter is_warning (console (fetchProjectDetailsConcurrently parsed fetch sched P))
           = [Warning (rec_get (P ! i) ''id'') message]
       \<and> projects (fetchProjectDetailsConcurrently parsed fetch sched P) = map (enrich fetch) P
       \<and> projects (fetchProjectDetailsConcurrently parsed fetch sched P) ! i = P ! i
       \<and> (\<forall>j < length P. j \<noteq> i \<longrightarrow> unfilled (P ! j) \<longrightarrow>
            (\<exists>detail. fetch (rec_get (P ! j) ''id'') = Inr detail
               \<and> projects (fetchProjectDetailsConcurrently parsed fetch sched P) ! j = apply_detail (P ! j) detail
               \<and> rec_get (projects (fetchProjectDetailsConcurrently parsed fetch sched P) ! j)
                    ''last_repository_updated_at'' = rec_get detail ''last_repository_updated_at''))"
proof -
  have wi: "item_warnings fetch (P ! i) = [Warning (rec_get (P ! i) ''id'') message]"
    using assms(2,3) by (simp add: item_warnings_def)
  have wo: "item_warnings fetch (P ! j) = []" if "j < length P" "j \<noteq> i" for j
    using assms(4) that by (cases "fetch (rec_get (P ! j) ''id'')") (auto simp: item_warnings_def)
  have c: "concat (map (item_warnings fetch) P) = item_warnings fetch (P ! i)"
    using assms(1) wo by (rule concat_single)
  have "mset (filter is_warning (console (fetchProjectDetailsConcurrently parsed fetch sched P)))
           = {#Warning (rec_get (P ! i) ''id'') message#}"
    unfolding fill_result(2) c wi by simp
  then have w: "filter is_warning (console (fetchProjectDetailsConcurrently parsed fetch sched P))
           = [Warning (rec_get (P ! i) ''id'') message]"
    by (rule mset_single_iff[THEN iffD1])
  have e: "enrich fetch (P ! i) = P ! i" using assms(2,3) by (simp add: enrich_def)
  have o: "\<exists>detail. fetch (rec_get (P ! j) ''id'') = Inr detail
               \<and> map (enrich fetch) P ! j = apply_detail (P ! j) detail
               \<and> rec_get (map (enrich fetch) P ! j) ''last_repository_updated_at''
                    = rec_get detail ''last_repository_updated_at''"
    if "j < length P" "j \<noteq> i" "unfilled (P ! j)" for j
  proof -
    from assms(4) that obtain detail where "fetch (rec_get (P ! j) ''id'') = Inr detail"
      by (cases "fetch (rec_get (P ! j) ''id'')") auto
    with that show ?thesis by (simp add: enrich_def apply_detail_field)
  qed
  show ?thesis
    unfolding fill_result(1) using w e o assms(1) by (simp add: fill_result(1))
qed

text \<open>
  Scenario C, for every order of settling: concurrency 3 over the ten projects, the fetch for
  item 4 throws; one warning, for item 4, and the field set on the nine other items.
\<close>

theorem fill_failure_isolated_witness:
  "\<forall>sched.
     filter is_warning (console (fetchProjectDetailsConcurrently (Some 3) fetch_sample sched pool_sample))
       = [Warning (JNum 4) ''GitLab request failed with status 500'']
   \<and> map (\<lambda>project. rec_get project ''last_repository_updated_at'')
         (projects (fetchProjectDetailsConcurrently (Some 3) fetch_sample sched pool_sample))
       = [JStr ''2024-01-01T00:00:00Z'', JStr ''2024-01-01T00:00:00Z'', JStr ''2024-01-01T00:00:00Z'',
          JUndefined,
          JStr ''2024-01-01T00:00:00Z'', JStr ''2024-01-01T00:00:00Z'', JStr ''2024-01-01T00:00:00Z'',
          JStr ''2024-01-01T00:00:00Z'', JStr ''2024-01-01T00:00:00Z'', JStr ''2024-01-01T00:00:00Z'']"
proof
  fix sched
  have h1: "3 < length pool_sample" by code_simp
  have h2: "unfilled (pool_sample ! 3)" by code_simp
  have h3: "fetch_sample (rec_get (pool_sample ! 3) ''id'') = Inl ''GitLab request failed with status 500''"
    by code_simp
  have "list_all (\<lambda>j. j \<noteq> 3 \<longrightarrow> unfilled (pool_sample ! j)
                      \<longrightarrow> \<not> isl (fetch_sample (rec_get (pool_sample ! j) ''id'')))
          [0..<length pool_sample]"
    by code_simp
  then have h4: "\<forall>j < length pool_sample. j \<noteq> 3 \<longrightarrow> unfilled (pool_sample ! j)
                      \<longrightarrow> \<not> isl (fetch_sample (rec_get (pool_sample ! j) ''id''))"
    by (simp add: list_all_iff)
  have id4: "rec_get (pool_sample ! 3) ''id'' = JNum 4" by code_simp
  have ev: "map (\<lambda>project. rec_get project ''last_repository_updated_at'') (map (enrich fetch_sample) pool_sample)
       = [JStr ''2024-01-01T00:00:00Z'', JStr ''2024-01-01T00:00:00Z'', JStr ''2024-01-01T00:00:00Z'',
          JUndefined,
          JStr ''2024-01-01T00:00:00Z'', JStr ''2024-01-01T00:00:00Z'', JStr ''2024-01-01T00:00:00Z'',
          JStr ''2024-01-01T00:00:00Z'', JStr ''2024-01-01T00:00:00Z'', JStr ''2024-01-01T00:00:00Z'']"
    by code_simp
  from fill_failure_isolated[OF h1 h2 h3 h4, of "Some 3" sched]
  show "filter is_warning (console (fetchProjectDetailsConcurrently (Some 3) fetch_sample sched pool_sample))
       = [Warning (JNum 4) ''GitLab request failed with status 500'']
   \<and> map (\<lambda>project. rec_get project ''last_repository_updated_at'')
         (projects (fetchProjectDetailsConcurrently (Some 3) fetch_sample sched pool_sample))
       = [JStr ''2024-01-01T00:00:00Z'', JStr ''2024-01-01T00:00:00Z'', JStr ''2024-01-01T00:00:00Z'',
          JUndefined,
          JStr ''2024-01-01T00:00:00Z'', JStr ''2024-01-01T00:00:00Z'', JStr ''2024-01-01T00:00:00Z'',
          JStr ''2024-01-01T00:00:00Z'', JStr ''2024-01-01T00:00:00Z'', JStr ''2024-01-01T00:00:00Z'']"
    by (simp only: id4 ev simp_thms)
qed

end
